theory Spec2Isabelle
  imports Main "HOL-Library.Word"
begin

section \<open>The loop_ivdep tutorial: constants and data\<close>

text \<open>
  The source fixes the matrix dimension at compile time:
  \<^verbatim>\<open>constexpr size_t kRowLength = 128;\<close>, \<^verbatim>\<open>kMinSafelen = 1\<close>,
  \<^verbatim>\<open>kMaxSafelen = kRowLength\<close>, \<^verbatim>\<open>kMatrixSize = kRowLength * kRowLength\<close>.
\<close>

definition kRowLength :: nat where
  "kRowLength = 128"

definition kMinSafelen :: nat where
  "kMinSafelen = 1"

definition kMaxSafelen :: nat where
  "kMaxSafelen = kRowLength"

definition kMatrixSize :: nat where
  "kMatrixSize = kRowLength * kRowLength"

text \<open>
  A kernel-local array \<^verbatim>\<open>float buf[kRowLength][kRowLength]\<close> is a function from
  row and column to the element, and a \<^verbatim>\<open>std::array<float, kMatrixSize>\<close> is a list,
  of which the kernel reads and writes the elements \<open>0\<close> to \<open>kMatrixSize - 1\<close>. The element
  type is a parameter with \<open>+\<close> and \<open>0\<close>; the program runs the kernel at the type of
  single-precision floats. The row length is the argument \<open>n\<close> of the loops below:
  \<^verbatim>\<open>TransposeAndFold\<close> runs them with \<open>n = kRowLength\<close>, the worked example of the
  specification has \<open>n = 2\<close>. All indices stay far below the range of \<^verbatim>\<open>size_t\<close>
  (\<open>j < 128\<^sup>3 = 2\<^sup>2\<^sup>1\<close>), so they are natural numbers.
\<close>

type_synonym 'a buffer2 = "nat \<Rightarrow> nat \<Rightarrow> 'a"

section \<open>The kernel, loop by loop\<close>

subsection \<open>Initialising the local buffers (source lines 48 to 51)\<close>

text \<open>
  \<^verbatim>\<open>for (size_t i = 0; i < kMatrixSize; i++) {
    in_buffer[i / kRowLength][i % kRowLength] = accessor_input[i];
    temp_buffer[i / kRowLength][i % kRowLength] = 0; }\<close>
  Both arrays are declared without an initialiser, so the loop starts from
  indeterminate contents, which the model takes as arguments.
\<close>

definition init_step ::
  "nat \<Rightarrow> 'a::zero list \<Rightarrow> nat \<Rightarrow> 'a buffer2 \<times> 'a buffer2 \<Rightarrow> 'a buffer2 \<times> 'a buffer2" where
  "init_step n accessor_input i bufs =
     (case bufs of (in_buffer, temp_buffer) \<Rightarrow>
        (in_buffer(i div n := (in_buffer (i div n))(i mod n := accessor_input ! i)),
         temp_buffer(i div n := (temp_buffer (i div n))(i mod n := 0))))"

definition init_buffers ::
  "nat \<Rightarrow> 'a::zero list \<Rightarrow> 'a buffer2 \<times> 'a buffer2 \<Rightarrow> 'a buffer2 \<times> 'a buffer2" where
  "init_buffers n accessor_input bufs = fold (init_step n accessor_input) [0..<n * n] bufs"

subsection \<open>The accumulation loop as written (source lines 58 to 63)\<close>

text \<open>
  \<^verbatim>\<open>for (size_t j = 0; j < kMatrixSize * kRowLength; j++)
    for (size_t i = 0; i < kRowLength; i++)
      temp_buffer[j % kRowLength][i] += in_buffer[i][j % kRowLength];\<close>
  \<open>store_sum\<close> is the store of one lane: the value loaded from
  \<^verbatim>\<open>temp_buffer[r][i]\<close> plus \<^verbatim>\<open>in_buffer[i][r]\<close>, written back to
  \<^verbatim>\<open>temp_buffer[r][i]\<close>. In program order the load reads the current contents.
\<close>

definition store_sum :: "nat \<Rightarrow> 'a::plus buffer2 \<Rightarrow> nat \<Rightarrow> 'a \<Rightarrow> 'a buffer2 \<Rightarrow> 'a buffer2" where
  "store_sum r in_buffer i loaded temp_buffer =
     temp_buffer(r := (temp_buffer r)(i := loaded + in_buffer i r))"

definition inner_step :: "nat \<Rightarrow> 'a::plus buffer2 \<Rightarrow> nat \<Rightarrow> 'a buffer2 \<Rightarrow> 'a buffer2" where
  "inner_step r in_buffer i temp_buffer =
     store_sum r in_buffer i (temp_buffer r i) temp_buffer"

definition outer_step :: "nat \<Rightarrow> 'a::plus buffer2 \<Rightarrow> nat \<Rightarrow> 'a buffer2 \<Rightarrow> 'a buffer2" where
  "outer_step n in_buffer j temp_buffer =
     fold (inner_step (j mod n) in_buffer) [0..<n] temp_buffer"

definition accumulate_upto :: "nat \<Rightarrow> 'a::plus buffer2 \<Rightarrow> nat \<Rightarrow> 'a buffer2 \<Rightarrow> 'a buffer2" where
  "accumulate_upto n in_buffer k temp_buffer = fold (outer_step n in_buffer) [0..<k] temp_buffer"

definition accumulate :: "nat \<Rightarrow> 'a::plus buffer2 \<Rightarrow> 'a buffer2 \<Rightarrow> 'a buffer2" where
  "accumulate n in_buffer temp_buffer = accumulate_upto n in_buffer (n * n * n) temp_buffer"

subsection \<open>The accumulation loop under \<^verbatim>\<open>[[intel::ivdep(safe_len)]]\<close>\<close>

text \<open>
  The attribute on line 57 tells the compiler, in the words of the source comment, that
  it ``can safely assume no loop-carried dependencies over \<open>safe_len\<close> consecutive
  iterations'' of the outer loop. A pipelined schedule may therefore start the loads of
  iteration \<open>j\<close> before the stores of the \<open>safe_len - 1\<close> iterations in front of it have
  landed: a load is only sure to see the stores of iterations up to \<open>j - safe_len\<close>.

  The model keeps every version of \<^verbatim>\<open>temp_buffer\<close>, newest first: after \<open>k\<close>
  iterations the history holds \<open>k + 1\<close> versions. The schedule \<open>lag j i\<close> says how
  many of the iterations in front of \<open>j\<close> the load of lane \<open>i\<close> misses; the attribute
  caps it at \<open>safe_len - 1\<close>, and there are only \<open>j\<close> iterations in front of \<open>j\<close>.
  Stores land in program order. With \<open>lag = 0\<close> everywhere this is program order.
\<close>

definition stale_by :: "nat \<Rightarrow> (nat \<Rightarrow> nat \<Rightarrow> nat) \<Rightarrow> nat \<Rightarrow> nat \<Rightarrow> nat" where
  "stale_by safe_len lag j i = min (min (lag j i) (safe_len - 1)) j"

definition ivdep_inner_step ::
  "nat \<Rightarrow> (nat \<Rightarrow> nat \<Rightarrow> nat) \<Rightarrow> nat \<Rightarrow> 'a::plus buffer2 \<Rightarrow> 'a buffer2 list \<Rightarrow> nat \<Rightarrow> nat
     \<Rightarrow> 'a buffer2 \<Rightarrow> 'a buffer2" where
  "ivdep_inner_step safe_len lag r in_buffer history j i temp_buffer =
     store_sum r in_buffer i ((history ! stale_by safe_len lag j i) r i) temp_buffer"

definition ivdep_outer_step ::
  "nat \<Rightarrow> nat \<Rightarrow> (nat \<Rightarrow> nat \<Rightarrow> nat) \<Rightarrow> 'a::plus buffer2 \<Rightarrow> nat \<Rightarrow> 'a buffer2 list
     \<Rightarrow> 'a buffer2 list" where
  "ivdep_outer_step n safe_len lag in_buffer j history =
     fold (ivdep_inner_step safe_len lag (j mod n) in_buffer history j) [0..<n] (hd history)
       # history"

definition ivdep_history ::
  "nat \<Rightarrow> nat \<Rightarrow> (nat \<Rightarrow> nat \<Rightarrow> nat) \<Rightarrow> 'a::plus buffer2 \<Rightarrow> nat \<Rightarrow> 'a buffer2 \<Rightarrow> 'a buffer2 list" where
  "ivdep_history n safe_len lag in_buffer k temp_buffer =
     fold (ivdep_outer_step n safe_len lag in_buffer) [0..<k] [temp_buffer]"

definition accumulate_ivdep ::
  "nat \<Rightarrow> nat \<Rightarrow> (nat \<Rightarrow> nat \<Rightarrow> nat) \<Rightarrow> 'a::plus buffer2 \<Rightarrow> 'a buffer2 \<Rightarrow> 'a buffer2" where
  "accumulate_ivdep n safe_len lag in_buffer temp_buffer =
     hd (ivdep_history n safe_len lag in_buffer (n * n * n) temp_buffer)"

subsection \<open>Writing the result (source lines 66 to 68)\<close>

text \<open>
  \<^verbatim>\<open>for (size_t i = 0; i < kMatrixSize; i++)
    accessor_output[i] = temp_buffer[i / kRowLength][i % kRowLength];\<close>
  The output accessor is \<^verbatim>\<open>write_only, no_init\<close>: the loop starts from an
  indeterminate array of \<open>n * n\<close> elements.
\<close>

definition write_step :: "nat \<Rightarrow> 'a buffer2 \<Rightarrow> nat \<Rightarrow> 'a list \<Rightarrow> 'a list" where
  "write_step n temp_buffer i accessor_output =
     accessor_output[i := temp_buffer (i div n) (i mod n)]"

definition write_output :: "nat \<Rightarrow> 'a buffer2 \<Rightarrow> 'a list \<Rightarrow> 'a list" where
  "write_output n temp_buffer accessor_output =
     fold (write_step n temp_buffer) [0..<n * n] accessor_output"

subsection \<open>The kernel\<close>

text \<open>
  What one launch finds and cannot choose: whether the SYCL runtime throws (the queue
  constructor does when no device matches the selector), the indeterminate contents of
  the two local arrays and of the output buffer, and the schedule of the pipeline.
\<close>

datatype sycl_exception = SyclException (what: string) (get_cl_code: int)

definition CL_DEVICE_NOT_FOUND :: int where
  "CL_DEVICE_NOT_FOUND = - 1"

record 'a launch =
  thrown :: "sycl_exception option"
  in_uninit :: "'a buffer2"
  temp_uninit :: "'a buffer2"
  out_uninit :: "nat \<Rightarrow> 'a"
  lag :: "nat \<Rightarrow> nat \<Rightarrow> nat"

definition KernelCompute_seq :: "nat \<Rightarrow> 'a::{plus,zero} launch \<Rightarrow> 'a list \<Rightarrow> 'a list" where
  "KernelCompute_seq n l accessor_input =
     (case init_buffers n accessor_input (in_uninit l, temp_uninit l) of
        (in_buffer, temp_buffer) \<Rightarrow>
          write_output n (accumulate n in_buffer temp_buffer)
            (map (out_uninit l) [0..<n * n]))"

definition KernelCompute :: "nat \<Rightarrow> nat \<Rightarrow> 'a::{plus,zero} launch \<Rightarrow> 'a list \<Rightarrow> 'a list" where
  "KernelCompute n safe_len l accessor_input =
     (case init_buffers n accessor_input (in_uninit l, temp_uninit l) of
        (in_buffer, temp_buffer) \<Rightarrow>
          write_output n (accumulate_ivdep n safe_len (lag l) in_buffer temp_buffer)
            (map (out_uninit l) [0..<n * n]))"

section \<open>Single-precision floats\<close>

text \<open>
  The program computes with \<^verbatim>\<open>float\<close>, IEEE 754 binary32: a sign bit, 8 bits of
  biased exponent, 23 bits of fraction. Exponent 255 is an infinity (fraction 0) or a
  NaN; exponent 0 is a zero or a subnormal number.
\<close>

datatype float32 = Float32 (sign: bool) (expo: "8 word") (frac: "23 word")

definition is_nan :: "float32 \<Rightarrow> bool" where
  "is_nan x = (expo x = 255 \<and> frac x \<noteq> 0)"

definition is_inf :: "float32 \<Rightarrow> bool" where
  "is_inf x = (expo x = 255 \<and> frac x = 0)"

definition is_zero :: "float32 \<Rightarrow> bool" where
  "is_zero x = (expo x = 0 \<and> frac x = 0)"

text \<open>
  Every finite binary32 number is a whole multiple of \<open>2\<^sup>-\<^sup>1\<^sup>4\<^sup>9\<close>. \<open>mag x\<close> is the
  absolute value of \<open>x\<close> counted in that unit, and \<open>sval x\<close> the value with its sign;
  an infinity counts as \<open>2\<^sup>2\<^sup>7\<^sup>7\<close>, above every finite number.
\<close>

definition mag :: "float32 \<Rightarrow> nat" where
  "mag x = (if expo x = 0 then unat (frac x)
            else (2 ^ 23 + unat (frac x)) * 2 ^ (unat (expo x) - 1))"

definition sval :: "float32 \<Rightarrow> int" where
  "sval x = (if sign x then - int (mag x) else int (mag x))"

text \<open>
  Rounding to nearest, ties to even. \<open>bitlen n\<close> is the number of binary digits of
  \<open>n\<close>; \<open>round_half_even n g\<close> is the whole number nearest to \<open>n / g\<close>; \<open>rne n d\<close> is
  the exact quotient \<open>n / d\<close> rounded to 24 significant bits, or to a whole number of
  units where it is below \<open>2\<^sup>2\<^sup>4\<close> units. \<open>encode\<close> packs a rounded magnitude into the
  three fields; what does not fit below \<open>2\<^sup>1\<^sup>2\<^sup>8\<close> becomes an infinity.
\<close>

fun bitlen :: "nat \<Rightarrow> nat" where
  "bitlen n = (if n = 0 then 0 else Suc (bitlen (n div 2)))"

declare bitlen.simps [simp del]

definition round_half_even :: "nat \<Rightarrow> nat \<Rightarrow> nat" where
  "round_half_even n g =
     (if 2 * (n mod g) < g then n div g
      else if g < 2 * (n mod g) then n div g + 1
      else if even (n div g) then n div g else n div g + 1)"

definition rne :: "nat \<Rightarrow> nat \<Rightarrow> nat" where
  "rne n d =
     (let sh = bitlen (n div d) - 24
      in round_half_even n (d * 2 ^ sh) * 2 ^ sh)"

definition encode :: "bool \<Rightarrow> nat \<Rightarrow> float32" where
  "encode s v =
     (if 2 ^ 277 \<le> v then Float32 s 255 0
      else if v < 2 ^ 23 then Float32 s 0 (of_nat v)
      else Float32 s (of_nat (bitlen v - 23)) (of_nat (v div 2 ^ (bitlen v - 24) - 2 ^ 23)))"

text \<open>
  A magnitude is representable when it has at most 24 significant bits.
\<close>

definition representable :: "nat \<Rightarrow> bool" where
  "representable v = (2 ^ (bitlen v - 24) dvd v)"

text \<open>
  Addition and division, correctly rounded. IEEE 754 leaves the sign and payload of a
  NaN result open; the model does what the SSE instructions of x86 do: a NaN operand
  comes back with its sign and payload and the quiet bit set (the first operand if both
  are NaNs), and an invalid operation gives the default NaN \<^verbatim>\<open>0xFFC00000\<close>. An exact zero
  sum is \<open>+0\<close> unless both operands are \<open>-0\<close>.
\<close>

definition quiet :: "float32 \<Rightarrow> float32" where
  "quiet x = Float32 (sign x) (expo x) (or (frac x) (2 ^ 22))"

definition default_nan :: float32 where
  "default_nan = Float32 True 255 (2 ^ 22)"

definition fadd :: "float32 \<Rightarrow> float32 \<Rightarrow> float32" where
  "fadd a b =
     (if is_nan a then quiet a
      else if is_nan b then quiet b
      else if is_inf a then (if is_inf b \<and> sign a \<noteq> sign b then default_nan else a)
      else if is_inf b then b
      else if sval a + sval b = 0 then Float32 (sign a \<and> sign b) 0 0
      else encode (sval a + sval b < 0) (rne (nat \<bar>sval a + sval b\<bar>) 1))"

definition fdiv :: "float32 \<Rightarrow> float32 \<Rightarrow> float32" where
  "fdiv a b =
     (if is_nan a then quiet a
      else if is_nan b then quiet b
      else if is_inf a then (if is_inf b then default_nan else Float32 (sign a \<noteq> sign b) 255 0)
      else if is_inf b then Float32 (sign a \<noteq> sign b) 0 0
      else if is_zero b then (if is_zero a then default_nan else Float32 (sign a \<noteq> sign b) 255 0)
      else encode (sign a \<noteq> sign b) (rne (mag a * 2 ^ 149) (mag b)))"

text \<open>\<^verbatim>\<open>static_cast<float>\<close> of an \<^verbatim>\<open>int\<close>.\<close>

definition float_of_int :: "int \<Rightarrow> float32" where
  "float_of_int i = encode (i < 0) (rne (nat \<bar>i\<bar> * 2 ^ 149) 1)"

text \<open>
  The comparisons of C++: \<^verbatim>\<open>==\<close> is false and \<^verbatim>\<open>!=\<close> is true as soon as one
  side is a NaN, and the two zeros are equal.
\<close>

definition feq :: "float32 \<Rightarrow> float32 \<Rightarrow> bool" where
  "feq a b = (\<not> is_nan a \<and> \<not> is_nan b \<and> sval a = sval b)"

definition fne :: "float32 \<Rightarrow> float32 \<Rightarrow> bool" where
  "fne a b = (\<not> feq a b)"

definition fle :: "float32 \<Rightarrow> float32 \<Rightarrow> bool" where
  "fle a b = (\<not> is_nan a \<and> \<not> is_nan b \<and> sval a \<le> sval b)"

definition flt :: "float32 \<Rightarrow> float32 \<Rightarrow> bool" where
  "flt a b = (\<not> is_nan a \<and> \<not> is_nan b \<and> sval a < sval b)"

instantiation float32 :: "{zero, one, plus}"
begin

definition zero_float32 :: float32 where
  "zero_float32 = Float32 False 0 0"

definition one_float32 :: float32 where
  "one_float32 = Float32 False 127 0"

definition plus_float32 :: "float32 \<Rightarrow> float32 \<Rightarrow> float32" where
  "plus_float32 a b = fadd a b"

instance ..

end

section \<open>The host function \<^verbatim>\<open>TransposeAndFold\<close>\<close>

text \<open>
  What the program prints, line by line. The kernel time and the throughput are
  measured values; the model keeps which line was printed and the \<open>safe_len\<close> in it.
  \<open>HostException\<close> is the line ``Caught a SYCL host exception'' with \<open>e.what()\<close>,
  \<open>BoardHint\<close> the three lines printed when the code is \<open>CL_DEVICE_NOT_FOUND\<close>.
\<close>

datatype message =
    KernelTime nat
  | Throughput nat
  | HostException string
  | BoardHint
  | FAILED
  | PASSED

text \<open>
  The kernel is submitted inside \<^verbatim>\<open>try\<close>; the handler of
  \<^verbatim>\<open>sycl::exception\<close> prints and calls \<^verbatim>\<open>std::terminate()\<close>, which is the
  \<open>Inl\<close> result with what was printed. Otherwise the buffer is copied back into
  \<^verbatim>\<open>m_output\<close> and the two report lines are printed.
\<close>

definition catch_handler :: "sycl_exception \<Rightarrow> message list" where
  "catch_handler e =
     HostException (what e) #
     (if get_cl_code e = CL_DEVICE_NOT_FOUND then [BoardHint] else [])"

definition TransposeAndFold ::
  "nat \<Rightarrow> 'a::{plus,zero} launch \<Rightarrow> 'a list \<Rightarrow> message list + 'a list \<times> message list" where
  "TransposeAndFold safe_len l m_input =
     (case thrown l of
        Some e \<Rightarrow> Inl (catch_handler e)
      | None \<Rightarrow>
          Inr (KernelCompute kRowLength safe_len l m_input,
               [KernelTime safe_len, Throughput safe_len]))"

text \<open>
  Two launches for the examples: one that runs the loop in program order, and one whose
  loads are always as late as the attribute lets them be; neither throws. They start
  from different memory contents.
\<close>

definition in_order :: "'a::{zero,one} launch" where
  "in_order = \<lparr>thrown = None, in_uninit = \<lambda>_ _. 0, temp_uninit = \<lambda>_ _. 0,
     out_uninit = \<lambda>_. 0, lag = \<lambda>_ _. 0\<rparr>"

definition late_loads :: "'a::{zero,one} launch" where
  "late_loads = \<lparr>thrown = None, in_uninit = \<lambda>_ _. 1, temp_uninit = \<lambda>_ _. 1,
     out_uninit = \<lambda>_. 1, lag = \<lambda>j _. j\<rparr>"

text \<open>
  A schedule in which only the loads of the last iteration of the outer loop are late,
  by \<open>n\<close> iterations. The attribute admits it from \<open>safe_len = n + 1\<close> on.
\<close>

definition last_load_late :: "nat \<Rightarrow> nat \<Rightarrow> nat \<Rightarrow> nat" where
  "last_load_late n j i = (if Suc j = n * n * n then n else 0)"

section \<open>The program\<close>

text \<open>
  What a run of \<^verbatim>\<open>main\<close> finds: the constant \<^verbatim>\<open>RAND_MAX\<close> of the C library, the
  value that the \<open>i\<close>-th call of \<^verbatim>\<open>rand()\<close> returns, and the two launches.
\<close>

record harness =
  RAND_MAX :: int
  rand :: "nat \<Rightarrow> int"
  first_launch :: "float32 launch"
  second_launch :: "float32 launch"

text \<open>
  \<^verbatim>\<open>for (size_t i = 0; i < kMatrixSize; i++)
    A[i] = static_cast<float>(rand()) / static_cast<float>(RAND_MAX);\<close>
\<close>

definition random_input :: "harness \<Rightarrow> float32 list" where
  "random_input h =
     map (\<lambda>i. fdiv (float_of_int (rand h i)) (float_of_int (RAND_MAX h))) [0..<kMatrixSize]"

text \<open>
  \<^verbatim>\<open>for (size_t i = 0; i < kMatrixSize; i++)
    if (B[i] != C[i]) { std::cout << "FAILED: ..."; return 1; }
  std::cout << "PASSED: ..."; return 0;\<close>
  The result is the exit status and what was printed.
\<close>

fun verify :: "float32 list \<Rightarrow> float32 list \<Rightarrow> nat list \<Rightarrow> int \<times> message list" where
  "verify B C [] = (0, [PASSED])"
| "verify B C (i # rest) = (if fne (B ! i) (C ! i) then (1, [FAILED]) else verify B C rest)"

datatype exit = Exit int | Terminated

definition main :: "harness \<Rightarrow> exit \<times> message list" where
  "main h =
     (let A = random_input h in
      case TransposeAndFold kMinSafelen (first_launch h) A of
        Inl err \<Rightarrow> (Terminated, err)
      | Inr (B, out1) \<Rightarrow>
          (case TransposeAndFold kMaxSafelen (second_launch h) A of
             Inl err \<Rightarrow> (Terminated, out1 @ err)
           | Inr (C, out2) \<Rightarrow>
               (case verify B C [0..<kMatrixSize] of
                  (status, out3) \<Rightarrow> (Exit status, out1 @ out2 @ out3))))"

section \<open>The kernel as the specification describes it\<close>

text \<open>
  The specification's three steps, on matrices as lists of rows: load the input into an
  \<open>N \<times> N\<close> working buffer and zero an \<open>N \<times> N\<close> accumulator; for \<open>j\<close> from 0 to
  \<open>N\<^sup>2 \<cdot> N\<close> and \<open>i\<close> from 0 to \<open>N\<close> do
  \<open>accumulator[j mod N][i] += working[i][j mod N]\<close>; copy the accumulator into the
  output matrix.
\<close>

definition spec_working :: "nat \<Rightarrow> 'a list \<Rightarrow> 'a list list" where
  "spec_working n input = map (\<lambda>r. map (\<lambda>c. input ! (r * n + c)) [0..<n]) [0..<n]"

definition spec_zeros :: "nat \<Rightarrow> 'a::zero list list" where
  "spec_zeros n = replicate n (replicate n 0)"

definition spec_iteration :: "nat \<Rightarrow> 'a::plus list list \<Rightarrow> nat \<Rightarrow> nat \<Rightarrow> 'a list list \<Rightarrow> 'a list list" where
  "spec_iteration n working j i accumulator =
     accumulator[j mod n :=
       (accumulator ! (j mod n))[i := accumulator ! (j mod n) ! i + working ! i ! (j mod n)]]"

definition spec_accumulate :: "nat \<Rightarrow> 'a::plus list list \<Rightarrow> 'a list list \<Rightarrow> 'a list list" where
  "spec_accumulate n working accumulator =
     fold (\<lambda>j. fold (spec_iteration n working j) [0..<n]) [0..<n * n * n] accumulator"

definition spec_kernel_core :: "nat \<Rightarrow> 'a::{plus,zero} list \<Rightarrow> 'a list" where
  "spec_kernel_core n input = concat (spec_accumulate n (spec_working n input) (spec_zeros n))"

text \<open>
  A kernel-local array read off as a list of rows, to compare the two forms.
\<close>

definition rows :: "nat \<Rightarrow> 'a buffer2 \<Rightarrow> 'a list list" where
  "rows n T = map (\<lambda>r. map (T r) [0..<n]) [0..<n]"

text \<open>
  The specification's contract for the result: output cell \<open>(r, c)\<close> is the sum over
  \<open>p\<close> in \<open>[0, N)\<close> of \<open>Input[p][r]\<close>, added up from \<open>p = 0\<close>.
\<close>

definition spec_column_sum :: "nat \<Rightarrow> 'a::{plus,zero} list \<Rightarrow> nat \<Rightarrow> 'a" where
  "spec_column_sum n input r = fold (\<lambda>p acc. acc + input ! (p * n + r)) [0..<n] 0"

definition spec_output :: "nat \<Rightarrow> 'a::{plus,zero} list \<Rightarrow> 'a list" where
  "spec_output n input = map (\<lambda>i. spec_column_sum n input (i div n)) [0..<n * n]"

section \<open>Properties of the loops\<close>

lemma index_in_range:
  assumes "(i::nat) < n * n"
  shows "i div n < n \<and> i mod n < n"
proof -
  have "0 < n" using assms by (cases n) simp_all
  with assms show ?thesis by (simp add: less_mult_imp_div_less)
qed

lemma inner_fold:
  "fold (inner_step r inb) [0..<m] T =
     (\<lambda>r' i'. if r' = r \<and> i' < m then T r' i' + inb i' r' else T r' i')"
proof (induction m)
  case 0
  show ?case by simp
next
  case (Suc m)
  have "fold (inner_step r inb) [0..<Suc m] T = inner_step r inb m (fold (inner_step r inb) [0..<m] T)"
    by simp
  also have "\<dots> = inner_step r inb m
      (\<lambda>r' i'. if r' = r \<and> i' < m then T r' i' + inb i' r' else T r' i')"
    by (simp only: Suc)
  also have "\<dots> = (\<lambda>r' i'. if r' = r \<and> i' < Suc m then T r' i' + inb i' r' else T r' i')"
    by (simp add: inner_step_def store_sum_def fun_eq_iff less_Suc_eq)
  finally show ?case .
qed

lemma ivdep_inner_fold:
  "fold (ivdep_inner_step s lg r inb hist j) [0..<m] T =
     (\<lambda>r' i'. if r' = r \<and> i' < m
        then (hist ! stale_by s lg j i') r' i' + inb i' r' else T r' i')"
proof (induction m)
  case 0
  show ?case by simp
next
  case (Suc m)
  have "fold (ivdep_inner_step s lg r inb hist j) [0..<Suc m] T =
      ivdep_inner_step s lg r inb hist j m (fold (ivdep_inner_step s lg r inb hist j) [0..<m] T)"
    by simp
  also have "\<dots> = ivdep_inner_step s lg r inb hist j m
      (\<lambda>r' i'. if r' = r \<and> i' < m
         then (hist ! stale_by s lg j i') r' i' + inb i' r' else T r' i')"
    by (simp only: Suc)
  also have "\<dots> = (\<lambda>r' i'. if r' = r \<and> i' < Suc m
         then (hist ! stale_by s lg j i') r' i' + inb i' r' else T r' i')"
    by (simp add: ivdep_inner_step_def store_sum_def fun_eq_iff less_Suc_eq)
  finally show ?case .
qed

lemma outer_step_eq:
  "outer_step n inb j T =
     (\<lambda>r' i'. if r' = j mod n \<and> i' < n then T r' i' + inb i' r' else T r' i')"
  by (simp add: outer_step_def inner_fold)

lemma accumulate_upto_Suc:
  "accumulate_upto n inb (Suc k) T = outer_step n inb k (accumulate_upto n inb k T)"
  by (simp add: accumulate_upto_def)

lemma accumulate_upto_0: "accumulate_upto n inb 0 T = T"
  by (simp add: accumulate_upto_def)

lemma mod_differs:
  fixes k e n :: nat
  assumes "0 < e" "e < n" "e \<le> k"
  shows "(k - e) mod n \<noteq> k mod n"
proof
  assume "(k - e) mod n = k mod n"
  then have "n dvd k - (k - e)"
    using assms by (metis diff_le_self mod_eq_dvd_iff_nat)
  then have "n dvd e" using assms by simp
  then show False using assms by (auto dest: dvd_imp_le)
qed

lemma row_stable:
  "d < n \<Longrightarrow> d \<le> k \<Longrightarrow>
     accumulate_upto n inb (k - d) T (k mod n) = accumulate_upto n inb k T (k mod n)"
proof (induction d)
  case 0
  show ?case by simp
next
  case (Suc d)
  have step: "k - d = Suc (k - Suc d)" using Suc.prems by simp
  have ne: "(k - Suc d) mod n \<noteq> k mod n"
    using Suc.prems by (intro mod_differs) simp_all
  have "accumulate_upto n inb (k - d) T (k mod n) = accumulate_upto n inb (k - Suc d) T (k mod n)"
    using ne by (simp add: step accumulate_upto_Suc outer_step_eq fun_eq_iff)
  with Suc show ?case by simp
qed

lemma ivdep_history_eq:
  assumes "s \<le> n"
  shows "ivdep_history n s lg inb k T = map (\<lambda>m. accumulate_upto n inb m T) (rev [0..<Suc k])"
proof (induction k)
  case 0
  show ?case by (simp add: ivdep_history_def accumulate_upto_0)
next
  case (Suc k)
  let ?V = "\<lambda>m. accumulate_upto n inb m T"
  define h where "h = map ?V (rev [0..<Suc k])"
  have hist: "ivdep_history n s lg inb (Suc k) T = ivdep_outer_step n s lg inb k h"
    using Suc by (simp add: ivdep_history_def h_def)
  have nth: "h ! d = ?V (k - d)" if "d \<le> k" for d
    using that by (simp add: h_def rev_nth nth_map del: upt_Suc)
  have hd: "hd h = ?V k" by (simp add: h_def)
  have view: "(h ! stale_by s lg k i) (k mod n) i = ?V k (k mod n) i" if "i < n" for i
  proof -
    let ?d = "stale_by s lg k i"
    have dk: "?d \<le> k" by (simp add: stale_by_def)
    have "?d \<le> s - 1" by (simp add: stale_by_def)
    then have dn: "?d < n" using assms that by arith
    show ?thesis using nth[OF dk] row_stable[OF dn dk, of inb T] by simp
  qed
  have "fold (ivdep_inner_step s lg (k mod n) inb h k) [0..<n] (hd h) = outer_step n inb k (?V k)"
    unfolding ivdep_inner_fold outer_step_eq hd
    by (intro ext) (simp add: view)
  then have "ivdep_outer_step n s lg inb k h = ?V (Suc k) # h"
    by (simp add: ivdep_outer_step_def accumulate_upto_Suc)
  with hist show ?case by (simp add: h_def)
qed

lemma accumulate_ivdep_eq:
  "s \<le> n \<Longrightarrow> accumulate_ivdep n s lg inb T = accumulate n inb T"
  by (simp add: accumulate_ivdep_def accumulate_def ivdep_history_eq)


lemma split_index:
  fixes n :: nat
  assumes "0 < n"
  shows "(r = m div n \<and> c = m mod n) \<longleftrightarrow> (c < n \<and> r * n + c = m)"
  using assms by auto

lemma init_fold:
  assumes n: "0 < n"
  shows "fold (init_step n inp) [0..<m] (I0, T0) =
     (\<lambda>r c. if c < n \<and> r * n + c < m then inp ! (r * n + c) else I0 r c,
      \<lambda>r c. if c < n \<and> r * n + c < m then 0 else T0 r c)"
proof (induction m)
  case 0
  show ?case by simp
next
  case (Suc m)
  have here: "m div n * n + m mod n = m" by simp
  have there: "(c < n \<and> r * n + c < Suc m) \<longleftrightarrow>
      (r = m div n \<and> c = m mod n) \<or> (c < n \<and> r * n + c < m)" for r c
    unfolding split_index[OF n] by (simp add: less_Suc_eq) blast
  have "fold (init_step n inp) [0..<Suc m] (I0, T0) =
      init_step n inp m (fold (init_step n inp) [0..<m] (I0, T0))"
    by simp
  also have "\<dots> = init_step n inp m
     (\<lambda>r c. if c < n \<and> r * n + c < m then inp ! (r * n + c) else I0 r c,
      \<lambda>r c. if c < n \<and> r * n + c < m then 0 else T0 r c)"
    by (simp only: Suc)
  also have "\<dots> =
     (\<lambda>r c. if c < n \<and> r * n + c < Suc m then inp ! (r * n + c) else I0 r c,
      \<lambda>r c. if c < n \<and> r * n + c < Suc m then 0 else T0 r c)"
    unfolding there by (auto simp add: init_step_def fun_eq_iff here)
  finally show ?case .
qed

lemma init_buffers_eq:
  "init_buffers n inp (I0, T0) =
     (\<lambda>r c. if r < n \<and> c < n then inp ! (r * n + c) else I0 r c,
      \<lambda>r c. if r < n \<and> c < n then 0 else T0 r c)"
proof (cases "n = 0")
  case True
  then show ?thesis by (simp add: init_buffers_def)
next
  case False
  then have n: "0 < n" by simp
  have iff: "(c < n \<and> r * n + c < n * n) \<longleftrightarrow> (r < n \<and> c < n)" for r c
  proof
    assume a: "c < n \<and> r * n + c < n * n"
    then have "r * n < n * n" by linarith
    then have "r < n" by simp
    with a show "r < n \<and> c < n" by simp
  next
    assume a: "r < n \<and> c < n"
    then have "Suc r \<le> n" by simp
    then have "Suc r * n \<le> n * n" by (rule mult_le_mono1)
    with a show "c < n \<and> r * n + c < n * n" by simp
  qed
  show ?thesis
    unfolding init_buffers_def init_fold[OF n] by (simp add: iff)
qed

lemma fold_update_nth:
  "m \<le> length xs \<Longrightarrow>
     length (fold (\<lambda>i ys. ys[i := f i]) [0..<m] xs) = length xs \<and>
     (\<forall>i < length xs. fold (\<lambda>i ys. ys[i := f i]) [0..<m] xs ! i = (if i < m then f i else xs ! i))"
proof (induction m)
  case 0
  show ?case by simp
next
  case (Suc m)
  then show ?case by (auto simp add: nth_list_update less_Suc_eq)
qed

lemma write_output_eq:
  assumes "length out0 = n * n"
  shows "write_output n T out0 = map (\<lambda>i. T (i div n) (i mod n)) [0..<n * n]"
proof -
  have ws: "write_step n T = (\<lambda>i ys. ys[i := T (i div n) (i mod n)])"
    by (simp add: fun_eq_iff write_step_def)
  show ?thesis
    using assms fold_update_nth[of "n * n" out0 "\<lambda>i. T (i div n) (i mod n)"]
    by (simp add: write_output_def ws list_eq_iff_nth_eq)
qed

lemma count_eq: "length (filter (\<lambda>i. i = r) [0..<n]) = (if r < n then 1 else 0)"
  by (induction n) auto

lemma count_hits:
  assumes "r < n"
  shows "length (filter (\<lambda>j. j mod n = r) [0..<n * m]) = m"
proof (induction m)
  case 0
  show ?case by simp
next
  case (Suc m)
  have a: "n * Suc m = n * m + n" by simp
  have b: "[0..<n * m + n] = [0..<n * m] @ [n * m..<n * m + n]"
    by (rule upt_add_eq_append) simp
  have c: "map (\<lambda>i. i + n * m) [0..<n] = [n * m..<n + n * m]"
    by (rule map_add_upt)
  have d: "n + n * m = n * m + n" by simp
  have split: "[0..<n * Suc m] = [0..<n * m] @ map (\<lambda>i. i + n * m) [0..<n]"
    by (simp only: a b c d)
  have "filter (\<lambda>i. (i + n * m) mod n = r) [0..<n] = filter (\<lambda>i. i = r) [0..<n]"
    by (rule filter_cong) auto
  then have "length (filter (\<lambda>j. j mod n = r) (map (\<lambda>i. i + n * m) [0..<n])) = 1"
    using assms by (simp add: filter_map comp_def count_eq)
  with Suc show ?case by (simp only: split filter_append length_append)
qed

lemma accumulate_upto_cell:
  assumes "i < n"
  shows "accumulate_upto n inb k T r i =
     ((\<lambda>x. x + inb i r) ^^ length (filter (\<lambda>j. j mod n = r) [0..<k])) (T r i)"
proof (induction k)
  case 0
  show ?case by (simp add: accumulate_upto_0)
next
  case (Suc k)
  show ?case
  proof (cases "k mod n = r")
    case True
    with assms Suc show ?thesis
      by (simp add: accumulate_upto_Suc outer_step_eq)
  next
    case False
    with assms Suc show ?thesis
      by (auto simp add: accumulate_upto_Suc outer_step_eq)
  qed
qed

lemma accumulate_cell:
  "r < n \<Longrightarrow> i < n \<Longrightarrow>
     accumulate n inb T r i = ((\<lambda>x. x + inb i r) ^^ (n * n)) (T r i)"
  by (simp add: accumulate_def accumulate_upto_cell mult.assoc count_hits)

lemma KernelCompute_seq_eq:
  "KernelCompute_seq n l inp =
     map (\<lambda>i. ((\<lambda>x. x + inp ! (i mod n * n + i div n)) ^^ (n * n)) 0) [0..<n * n]"
proof -
  have "i div n < n \<and> i mod n < n" if "i < n * n" for i
    using that index_in_range by blast
  then show ?thesis
    by (simp add: KernelCompute_seq_def init_buffers_eq write_output_eq accumulate_cell)
qed

lemma KernelCompute_eq:
  "s \<le> n \<Longrightarrow> KernelCompute n s l inp =
     map (\<lambda>i. ((\<lambda>x. x + inp ! (i mod n * n + i div n)) ^^ (n * n)) 0) [0..<n * n]"
proof -
  assume s: "s \<le> n"
  have "i div n < n \<and> i mod n < n" if "i < n * n" for i
    using that index_in_range by blast
  then show ?thesis
    by (simp add: KernelCompute_def init_buffers_eq write_output_eq accumulate_ivdep_eq[OF s] accumulate_cell)
qed

lemma KernelCompute_program_order:
  "s \<le> n \<Longrightarrow> KernelCompute n s l inp = KernelCompute_seq n l' inp"
  by (simp add: KernelCompute_eq KernelCompute_seq_eq)

lemma funpow_add_exact:
  "((\<lambda>x. x + a) ^^ k) 0 = of_nat k * (a::'a::semiring_1)"
  by (induction k) (simp_all add: distrib_right add.commute)

lemma KernelCompute_nth:
  assumes "s \<le> n" "r < n" "c < n"
  shows "KernelCompute n s l inp ! (r * n + c) = ((\<lambda>x. x + inp ! (c * n + r)) ^^ (n * n)) 0"
proof -
  have "Suc r \<le> n" using assms by simp
  then have "Suc r * n \<le> n * n" by (rule mult_le_mono1)
  then have lt: "r * n + c < n * n" using assms by simp
  show ?thesis
    using assms lt by (simp add: KernelCompute_eq)
qed

lemma TransposeAndFold_eq:
  "thrown l = None \<Longrightarrow> s \<le> kRowLength \<Longrightarrow>
     TransposeAndFold s l A =
       Inr (map (\<lambda>i. ((\<lambda>x. x + A ! (i mod kRowLength * kRowLength + i div kRowLength)) ^^ kMatrixSize) 0)
              [0..<kMatrixSize],
            [KernelTime s, Throughput s])"
  by (simp add: TransposeAndFold_def KernelCompute_eq kMatrixSize_def)


section \<open>Properties of the floats\<close>

lemma bitlen_0: "bitlen 0 = 0"
  by (simp add: bitlen.simps)

lemma bitlen_pos: "0 < n \<Longrightarrow> bitlen n = Suc (bitlen (n div 2))"
  by (subst bitlen.simps) simp

lemma bitlen_upper: "n < 2 ^ bitlen n"
proof (induction n rule: bitlen.induct)
  case (1 n)
  show ?case
  proof (cases "n = 0")
    case True
    then show ?thesis by (simp add: bitlen_0)
  next
    case False
    then have "n div 2 < 2 ^ bitlen (n div 2)" using 1 by simp
    then have "n < 2 * 2 ^ bitlen (n div 2)" by arith
    with False show ?thesis by (simp add: bitlen_pos)
  qed
qed

lemma bitlen_lower: "0 < n \<Longrightarrow> 2 ^ (bitlen n - 1) \<le> n"
proof (induction n rule: bitlen.induct)
  case (1 n)
  show ?case
  proof (cases "n div 2 = 0")
    case True
    with 1(2) show ?thesis by (simp add: bitlen_pos bitlen_0)
  next
    case False
    then have pos: "0 < n div 2" by simp
    with 1 have "2 ^ (bitlen (n div 2) - 1) \<le> n div 2" by simp
    then have "2 * 2 ^ (bitlen (n div 2) - 1) \<le> n" by arith
    moreover have "bitlen (n div 2) = Suc (bitlen (n div 2) - 1)"
      using pos by (simp add: bitlen_pos)
    ultimately show ?thesis using 1(2) by (simp add: bitlen_pos) (metis power_Suc)
  qed
qed

lemma bitlen_le: "n < 2 ^ k \<Longrightarrow> bitlen n \<le> k"
proof (rule ccontr)
  assume lt: "n < 2 ^ k" and "\<not> bitlen n \<le> k"
  then have k: "k \<le> bitlen n - 1" and pos: "0 < n"
    by (auto simp add: bitlen_0 intro: gr0I)
  have "(2::nat) ^ k \<le> 2 ^ (bitlen n - 1)" using k by (simp add: power_increasing)
  also have "\<dots> \<le> n" using pos by (rule bitlen_lower)
  finally show False using lt by simp
qed

lemma bitlen_gt: "2 ^ k \<le> n \<Longrightarrow> k < bitlen n"
proof (rule ccontr)
  assume le: "2 ^ k \<le> n" and "\<not> k < bitlen n"
  then have "bitlen n \<le> k" by simp
  then have "(2::nat) ^ bitlen n \<le> 2 ^ k" by (rule power_increasing) simp
  with le have "2 ^ bitlen n \<le> n" by linarith
  with bitlen_upper[of n] show False by simp
qed

lemma bitlen_mono: "m \<le> n \<Longrightarrow> bitlen m \<le> bitlen n"
  using bitlen_upper[of n] by (intro bitlen_le) simp

lemma bitlen_eq: "2 ^ k \<le> n \<Longrightarrow> n < 2 ^ Suc k \<Longrightarrow> bitlen n = Suc k"
  using bitlen_le[of n "Suc k"] bitlen_gt[of k n] by simp

lemma rhe_lower: "n div g \<le> round_half_even n g"
  by (simp add: round_half_even_def)

lemma rhe_upper: "round_half_even n g \<le> n div g + 1"
  by (simp add: round_half_even_def)

lemma rhe_exact: "0 < g \<Longrightarrow> round_half_even (k * g) g = k"
  by (simp add: round_half_even_def)

lemma rhe_mono:
  assumes g: "0 < g" and le: "n \<le> n'"
  shows "round_half_even n g \<le> round_half_even n' g"
proof (cases "n div g = n' div g")
  case True
  have a: "n div g * g + n mod g = n" by simp
  have b: "n div g * g + n' mod g = n'" unfolding True by simp
  have "n mod g \<le> n' mod g" using le a b by linarith
  with True show ?thesis by (auto simp add: round_half_even_def)
next
  case False
  moreover have "n div g \<le> n' div g" using le by (rule div_le_mono)
  ultimately have "n div g + 1 \<le> n' div g" by simp
  with rhe_upper[of n g] rhe_lower[of n' g] show ?thesis by linarith
qed

lemma rne_eq:
  "rne n d = round_half_even n (d * 2 ^ (bitlen (n div d) - 24)) * 2 ^ (bitlen (n div d) - 24)"
  by (simp add: rne_def Let_def)

lemma quotient_small:
  assumes d: "0 < d"
  shows "n div (d * 2 ^ (bitlen (n div d) - 24)) < 2 ^ 24"
proof -
  let ?f = "n div d" and ?sh = "bitlen (n div d) - 24"
  have "bitlen ?f \<le> 24 + ?sh" by simp
  then have "(2::nat) ^ bitlen ?f \<le> 2 ^ (24 + ?sh)" by (rule power_increasing) simp
  with bitlen_upper[of ?f] have "?f < 2 ^ 24 * 2 ^ ?sh" by (simp add: power_add)
  then have "?f div 2 ^ ?sh < 2 ^ 24" by (rule less_mult_imp_div_less)
  then show ?thesis by (simp add: div_mult2_eq)
qed

lemma quotient_large:
  assumes d: "0 < d" and sh: "0 < bitlen (n div d) - 24"
  shows "2 ^ 23 \<le> n div (d * 2 ^ (bitlen (n div d) - 24))"
proof -
  let ?f = "n div d" and ?sh = "bitlen (n div d) - 24"
  have pos: "0 < ?f"
  proof (rule ccontr)
    assume "\<not> 0 < ?f"
    then have "?f = 0" by simp
    then have "bitlen ?f = 0" by (simp only: bitlen_0)
    with sh show False by simp
  qed
  have e: "bitlen ?f - 1 = 23 + ?sh" using sh by arith
  have "2 ^ (bitlen ?f - 1) \<le> ?f" using pos by (rule bitlen_lower)
  then have "2 ^ (23 + ?sh) \<le> ?f" by (simp only: e)
  then have "2 ^ 23 * 2 ^ ?sh \<le> ?f" by (simp only: power_add)
  then have "2 ^ 23 \<le> ?f div 2 ^ ?sh"
    using less_eq_div_iff_mult_less_eq[of "2 ^ ?sh" "2 ^ 23" ?f] by simp
  then show ?thesis by (simp only: div_mult2_eq)
qed

lemma representable_scaled:
  assumes "q \<le> 2 ^ 24"
  shows "representable (q * 2 ^ sh)"
proof (cases "q = 2 ^ 24")
  case True
  then have v: "q * 2 ^ sh = 2 ^ (24 + sh)" by (simp add: power_add)
  have "(2::nat) ^ (24 + sh) < 2 ^ (25 + sh)" by simp
  then have "bitlen (2 ^ (24 + sh)) \<le> 25 + sh" by (rule bitlen_le)
  then have "bitlen (2 ^ (24 + sh)) - 24 \<le> 24 + sh" by simp
  then have "(2::nat) ^ (bitlen (2 ^ (24 + sh)) - 24) dvd 2 ^ (24 + sh)"
    by (rule le_imp_power_dvd)
  then show ?thesis by (simp only: representable_def v)
next
  case False
  with assms have "q < 2 ^ 24" by simp
  then have "q * 2 ^ sh < 2 ^ 24 * 2 ^ sh" by simp
  then have "q * 2 ^ sh < 2 ^ (24 + sh)" by (simp add: power_add)
  then have "bitlen (q * 2 ^ sh) \<le> 24 + sh" by (rule bitlen_le)
  then have "bitlen (q * 2 ^ sh) - 24 \<le> sh" by simp
  then have "(2::nat) ^ (bitlen (q * 2 ^ sh) - 24) dvd 2 ^ sh" by (rule le_imp_power_dvd)
  then show ?thesis by (simp add: representable_def)
qed

lemma representable_rne:
  assumes d: "0 < d"
  shows "representable (rne n d)"
proof -
  have "round_half_even n (d * 2 ^ (bitlen (n div d) - 24)) \<le> 2 ^ 24"
    using quotient_small[OF d, of n] rhe_upper[of n "d * 2 ^ (bitlen (n div d) - 24)"]
    by linarith
  then show ?thesis unfolding rne_eq by (rule representable_scaled)
qed

lemma rne_exact:
  assumes d: "0 < d" and p: "representable p"
  shows "rne (p * d) d = p"
proof -
  define sh where "sh = bitlen p - 24"
  from p obtain k where k: "p = 2 ^ sh * k" by (auto simp add: representable_def sh_def)
  have g: "0 < d * 2 ^ sh" using d by simp
  have eq: "p * d = k * (d * 2 ^ sh)" by (simp add: k)
  have "round_half_even (k * (d * 2 ^ sh)) (d * 2 ^ sh) = k" using g by (rule rhe_exact)
  then have r: "round_half_even (p * d) (d * 2 ^ sh) = k" by (simp only: eq)
  have "rne (p * d) d = round_half_even (p * d) (d * 2 ^ sh) * 2 ^ sh"
    using d by (simp add: rne_eq sh_def)
  also have "\<dots> = k * 2 ^ sh" by (simp only: r)
  also have "\<dots> = p" by (simp add: k)
  finally show ?thesis .
qed

lemma rne_mono:
  assumes d: "0 < d" and le: "n \<le> n'"
  shows "rne n d \<le> rne n' d"
proof -
  let ?sh = "bitlen (n div d) - 24" and ?sh' = "bitlen (n' div d) - 24"
  have "n div d \<le> n' div d" using le by (rule div_le_mono)
  then have "bitlen (n div d) \<le> bitlen (n' div d)" by (rule bitlen_mono)
  then have sh: "?sh \<le> ?sh'" by simp
  show ?thesis
  proof (cases "?sh = ?sh'")
    case True
    have "round_half_even n (d * 2 ^ ?sh) \<le> round_half_even n' (d * 2 ^ ?sh)"
      using d le by (intro rhe_mono) simp_all
    then show ?thesis unfolding rne_eq True[symmetric] by simp
  next
    case False
    with sh have lt: "?sh < ?sh'" by simp
    then have pos: "0 < ?sh'" by simp
    have "round_half_even n (d * 2 ^ ?sh) \<le> 2 ^ 24"
      using quotient_small[OF d, of n] rhe_upper[of n "d * 2 ^ ?sh"] by linarith
    then have "rne n d \<le> 2 ^ 24 * 2 ^ ?sh" unfolding rne_eq by simp
    also have "\<dots> = 2 ^ (24 + ?sh)" by (simp add: power_add)
    also have "\<dots> \<le> 2 ^ (23 + ?sh')" using lt by (intro power_increasing) simp_all
    also have "\<dots> = 2 ^ 23 * 2 ^ ?sh'" by (simp add: power_add)
    also have "\<dots> \<le> round_half_even n' (d * 2 ^ ?sh') * 2 ^ ?sh'"
      using quotient_large[OF d pos] rhe_lower[of n' "d * 2 ^ ?sh'"]
      by (intro mult_le_mono1) linarith
    finally show ?thesis unfolding rne_eq[of n' d] .
  qed
qed

lemma unat_expo: "e < 256 \<Longrightarrow> unat (of_nat e :: 8 word) = e"
  by (simp add: unat_of_nat)

lemma unat_frac: "m < 2 ^ 23 \<Longrightarrow> unat (of_nat m :: 23 word) = m"
  by (simp add: unat_of_nat)

lemma sign_encode: "sign (encode s v) = s"
  by (simp add: encode_def)

lemma normal_expo:
  assumes lo: "2 ^ 23 \<le> v" and hi: "v < 2 ^ 277"
  shows "0 < bitlen v - 23 \<and> bitlen v - 23 < 255"
proof -
  have "23 < bitlen v" using lo by (rule bitlen_gt)
  moreover have "bitlen v \<le> 277" using hi by (rule bitlen_le)
  ultimately show ?thesis by simp
qed

lemma expo_encode:
  "unat (expo (encode s v)) =
     (if 2 ^ 277 \<le> v then 255 else if v < 2 ^ 23 then 0 else bitlen v - 23)"
proof -
  have "unat (of_nat (bitlen v - 23) :: 8 word) = bitlen v - 23"
    if "2 ^ 23 \<le> v" "v < 2 ^ 277"
    using normal_expo[OF that] by (intro unat_expo) simp
  then show ?thesis by (simp add: encode_def not_le not_less)
qed

lemma not_nan_encode: "\<not> is_nan (encode s v)"
proof (cases "2 ^ 277 \<le> v")
  case True
  then show ?thesis by (simp add: is_nan_def encode_def)
next
  case False
  have "unat (expo (encode s v)) \<noteq> 255"
    using False normal_expo[of v] by (auto simp add: expo_encode not_le)
  then have "expo (encode s v) \<noteq> 255" by auto
  then show ?thesis by (simp add: is_nan_def)
qed

lemma is_inf_encode: "is_inf (encode s v) \<longleftrightarrow> 2 ^ 277 \<le> v"
proof (cases "2 ^ 277 \<le> v")
  case True
  then show ?thesis by (simp add: is_inf_def encode_def)
next
  case False
  have "unat (expo (encode s v)) \<noteq> 255"
    using False normal_expo[of v] by (auto simp add: expo_encode not_le)
  then have "expo (encode s v) \<noteq> 255" by auto
  with False show ?thesis by (simp add: is_inf_def)
qed

lemma mag_encode:
  assumes rep: "representable v" and hi: "v < 2 ^ 277"
  shows "mag (encode s v) = v"
proof (cases "v < 2 ^ 23")
  case True
  with hi show ?thesis by (simp add: mag_def encode_def unat_frac)
next
  case False
  then have lo: "2 ^ 23 \<le> v" by simp
  define sh where "sh = bitlen v - 24"
  define m where "m = v div 2 ^ sh"
  have len: "23 < bitlen v" using lo by (rule bitlen_gt)
  then have bl: "bitlen v = 24 + sh" "bitlen v - 1 = 23 + sh" "bitlen v - 23 = Suc sh"
    by (simp_all add: sh_def)
  have pos: "0 < v" using lo by (simp add: gr0I)
  have "v < 2 ^ 24 * 2 ^ sh" using bitlen_upper[of v] by (simp add: bl power_add)
  then have m_hi: "m < 2 ^ 24" unfolding m_def by (rule less_mult_imp_div_less)
  have "2 ^ 23 * 2 ^ sh \<le> v" using bitlen_lower[OF pos] by (simp add: bl power_add)
  then have m_lo: "2 ^ 23 \<le> m"
    unfolding m_def using less_eq_div_iff_mult_less_eq[of "2 ^ sh" "2 ^ 23" v] by simp
  have "2 ^ sh dvd v" using rep by (simp add: representable_def sh_def)
  then have v: "m * 2 ^ sh = v" by (simp add: m_def)
  have fr: "unat (of_nat (m - 2 ^ 23) :: 23 word) = m - 2 ^ 23"
    using m_hi by (intro unat_frac) simp
  have ex: "unat (expo (encode s v)) = Suc sh"
    using lo hi by (simp add: expo_encode bl not_le)
  then have nz: "expo (encode s v) \<noteq> 0" by auto
  have "frac (encode s v) = of_nat (m - 2 ^ 23)"
    using False hi by (simp add: encode_def m_def sh_def)
  then have "mag (encode s v) = (2 ^ 23 + (m - 2 ^ 23)) * 2 ^ sh"
    using nz fr by (simp add: mag_def ex)
  also have "\<dots> = m * 2 ^ sh" using m_lo by simp
  finally show ?thesis using v by simp
qed

lemma is_zero_mag: "is_zero x \<longleftrightarrow> mag x = 0"
  by (auto simp add: is_zero_def mag_def unat_eq_0)

lemma representable_power: "representable (2 ^ k)"
  using representable_scaled[of 1 k] by simp

lemma rne_bounds:
  assumes "n \<le> 2 ^ k * d" and d: "0 < d"
  shows "rne n d \<le> 2 ^ k"
proof -
  have "rne n d \<le> rne (2 ^ k * d) d" using d assms(1) by (rule rne_mono)
  also have "\<dots> = 2 ^ k" using d representable_power by (rule rne_exact)
  finally show ?thesis .
qed

lemma rne_lower:
  assumes "2 ^ k * d \<le> n" and d: "0 < d"
  shows "2 ^ k \<le> rne n d"
proof -
  have "2 ^ k = rne (2 ^ k * d) d" using d representable_power by (rule rne_exact[symmetric])
  also have "\<dots> \<le> rne n d" using d assms(1) by (rule rne_mono)
  finally show ?thesis .
qed

lemma float_of_nat:
  assumes "n \<le> 2 ^ 31"
  shows "float_of_int (int n) = encode False (rne (n * 2 ^ 149) 1)"
    and "rne (n * 2 ^ 149) 1 \<le> 2 ^ 180"
    and "mag (float_of_int (int n)) = rne (n * 2 ^ 149) 1"
proof -
  show eq: "float_of_int (int n) = encode False (rne (n * 2 ^ 149) 1)"
    by (simp add: float_of_int_def)
  have "n * 2 ^ 149 \<le> 2 ^ 31 * 2 ^ 149" using assms by (rule mult_le_mono1)
  then have "n * 2 ^ 149 \<le> 2 ^ 180 * 1" by (simp add: power_add[symmetric])
  then show le: "rne (n * 2 ^ 149) 1 \<le> 2 ^ 180" by (rule rne_bounds) simp
  have "(2::nat) ^ 180 < 2 ^ 277" by simp
  with le have "rne (n * 2 ^ 149) 1 < 2 ^ 277" by (rule le_less_trans)
  then show "mag (float_of_int (int n)) = rne (n * 2 ^ 149) 1"
    unfolding eq by (intro mag_encode representable_rne) simp
qed

section \<open>Properties of float addition and of the random input\<close>

lemma not_nan_zero: "\<not> is_nan (Float32 s 0 0)"
  by (simp add: is_nan_def)

lemma fadd_nonneg:
  assumes a: "\<not> is_nan a" "\<not> sign a" and b: "\<not> is_nan b" "\<not> sign b"
  shows "\<not> is_nan (a + b) \<and> \<not> sign (a + b)"
proof -
  have "0 \<le> sval a + sval b" using a b by (simp add: sval_def)
  then have s: "\<not> sval a + sval b < 0" by simp
  show ?thesis
  proof (cases "is_inf a")
    case True
    then show ?thesis using a b by (simp add: plus_float32_def fadd_def)
  next
    case False
    show ?thesis
    proof (cases "is_inf b")
      case True
      with False show ?thesis using a b by (simp add: plus_float32_def fadd_def)
    next
      case nb: False
      show ?thesis
        using a b s False nb
        by (simp add: plus_float32_def fadd_def not_nan_encode sign_encode not_nan_zero)
    qed
  qed
qed

lemma funpow_nonneg:
  assumes "\<not> is_nan a" "\<not> sign a"
  shows "\<not> is_nan (((\<lambda>x. x + a) ^^ k) 0) \<and> \<not> sign (((\<lambda>x. x + a) ^^ k) 0)"
proof (induction k)
  case 0
  show ?case by (simp add: zero_float32_def is_nan_def)
next
  case (Suc k)
  then show ?case using fadd_nonneg[OF _ _ assms] by simp
qed

lemma fne_same: "fne x x \<longleftrightarrow> is_nan x"
  by (simp add: fne_def feq_def)

lemma zero_plus_zero:
  assumes "is_zero x"
  shows "(0::float32) + x = 0"
proof -
  have "mag x = 0" using assms by (simp add: is_zero_mag)
  then have "sval 0 + sval x = 0" by (simp add: sval_def zero_float32_def mag_def)
  moreover have "\<not> is_nan x" "\<not> is_inf x"
    using assms by (simp_all add: is_zero_def is_nan_def is_inf_def)
  ultimately show ?thesis
    by (simp add: plus_float32_def fadd_def zero_float32_def is_nan_def is_inf_def)
qed

lemma funpow_zero:
  assumes "is_zero x"
  shows "((\<lambda>acc. acc + x) ^^ k) (0::float32) = 0"
  by (induction k) (simp_all add: zero_plus_zero[OF assms])

lemma sval_zero: "sval (0::float32) = 0"
  by (simp add: sval_def mag_def zero_float32_def)

lemma sval_one: "sval (1::float32) = 2 ^ 149"
  by (simp add: sval_def mag_def one_float32_def)

lemma input_element:
  assumes r: "0 \<le> r" "r \<le> M" and M: "0 < M" "M < 2 ^ 31"
  shows "\<not> is_nan (fdiv (float_of_int r) (float_of_int M))"
    and "\<not> sign (fdiv (float_of_int r) (float_of_int M))"
    and "mag (fdiv (float_of_int r) (float_of_int M)) \<le> 2 ^ 149"
proof -
  define nr where "nr = nat r"
  define nM where "nM = nat M"
  define va where "va = rne (nr * 2 ^ 149) 1"
  define vb where "vb = rne (nM * 2 ^ 149) 1"
  have ints: "r = int nr" "M = int nM" using r M by (simp_all add: nr_def nM_def)
  have le: "nr \<le> nM" and pos: "1 \<le> nM" and hi: "nM \<le> 2 ^ 31" "nr \<le> 2 ^ 31"
    using r M by (simp_all add: nr_def nM_def nat_le_iff)
  have a: "float_of_int r = encode False va" and ma: "mag (float_of_int r) = va"
    and a_hi: "va \<le> 2 ^ 180"
    unfolding ints va_def using float_of_nat[OF hi(2)] by simp_all
  have b: "float_of_int M = encode False vb" and mb: "mag (float_of_int M) = vb"
    and b_hi: "vb \<le> 2 ^ 180"
    unfolding ints vb_def using float_of_nat[OF hi(1)] by simp_all
  have "nr * 2 ^ 149 \<le> nM * 2 ^ 149" using le by (rule mult_le_mono1)
  then have ab: "va \<le> vb" unfolding va_def vb_def by (intro rne_mono) simp_all
  have "2 ^ 149 * 1 \<le> nM * 2 ^ 149" using pos by simp
  then have b_lo: "2 ^ 149 \<le> vb" unfolding vb_def by (rule rne_lower) simp
  then have b_pos: "0 < vb" by (simp add: less_le_trans[of 0 "2 ^ 149"])
  have fin: "va < 2 ^ 277" "vb < 2 ^ 277"
    using a_hi b_hi by (simp_all add: le_less_trans[of _ "2 ^ 180"])
  have nz: "\<not> is_zero (float_of_int M)" using b_pos by (simp add: is_zero_mag mb)
  have q: "fdiv (float_of_int r) (float_of_int M) = encode False (rne (va * 2 ^ 149) vb)"
    using fin nz
    by (simp add: fdiv_def ma mb) (simp add: a b not_nan_encode is_inf_encode sign_encode not_le)
  show "\<not> is_nan (fdiv (float_of_int r) (float_of_int M))"
    unfolding q by (rule not_nan_encode)
  show "\<not> sign (fdiv (float_of_int r) (float_of_int M))"
    unfolding q by (simp add: sign_encode)
  have "va * 2 ^ 149 \<le> 2 ^ 149 * vb" using ab by simp
  then have q_hi: "rne (va * 2 ^ 149) vb \<le> 2 ^ 149" using b_pos by (rule rne_bounds)
  then have "rne (va * 2 ^ 149) vb < 2 ^ 277" by (simp add: le_less_trans[of _ "2 ^ 149"])
  then have "mag (encode False (rne (va * 2 ^ 149) vb)) = rne (va * 2 ^ 149) vb"
    using b_pos by (intro mag_encode representable_rne)
  with q_hi show "mag (fdiv (float_of_int r) (float_of_int M)) \<le> 2 ^ 149"
    unfolding q by simp
qed

lemma rand_max_over_rand_max:
  assumes M: "0 < M" "M < 2 ^ 31"
  shows "fdiv (float_of_int M) (float_of_int M) = 1"
proof -
  define nM where "nM = nat M"
  define vb where "vb = rne (nM * 2 ^ 149) 1"
  have ints: "M = int nM" using M by (simp_all add: nM_def)
  have pos: "1 \<le> nM" and hi: "nM \<le> 2 ^ 31"
    using M by (simp_all add: nM_def nat_le_iff)
  have b: "float_of_int M = encode False vb" and mb: "mag (float_of_int M) = vb"
    and b_hi: "vb \<le> 2 ^ 180"
    unfolding ints vb_def using float_of_nat[OF hi] by simp_all
  have "2 ^ 149 * 1 \<le> nM * 2 ^ 149" using pos by simp
  then have b_lo: "2 ^ 149 \<le> vb" unfolding vb_def by (rule rne_lower) simp
  then have b_pos: "0 < vb" by (simp add: less_le_trans[of 0 "2 ^ 149"])
  have fin: "vb < 2 ^ 277"
    using b_hi by (simp_all add: le_less_trans[of _ "2 ^ 180"])
  have nz: "\<not> is_zero (float_of_int M)" using b_pos by (simp add: is_zero_mag mb)
  have q: "fdiv (float_of_int M) (float_of_int M) = encode False (rne (vb * 2 ^ 149) vb)"
    using fin nz
    by (simp add: fdiv_def mb) (simp add: b not_nan_encode is_inf_encode sign_encode not_le)
  have "rne (2 ^ 149 * vb) vb = 2 ^ 149" using b_pos representable_power by (rule rne_exact)
  then have "rne (vb * 2 ^ 149) vb = 2 ^ 149" by (simp add: mult.commute)
  moreover have "encode False (2 ^ 149) = 1"
    by (simp add: encode_def one_float32_def bitlen.simps)
  ultimately show ?thesis unfolding q by simp
qed

lemma verify_eq:
  "verify B C idx =
     (if list_all (\<lambda>i. feq (B ! i) (C ! i)) idx then (0, [PASSED]) else (1, [FAILED]))"
  by (induction idx) (simp_all add: fne_def)

section \<open>The specified steps and the kernel\<close>

lemma spec_working_rows: "spec_working n inp = rows n (\<lambda>r c. inp ! (r * n + c))"
  by (simp add: spec_working_def rows_def)

lemma spec_zeros_rows: "spec_zeros n = rows n (\<lambda>_ _. 0)"
  by (simp add: spec_zeros_def rows_def map_replicate_const)

lemma rows_nth: "r < n \<Longrightarrow> c < n \<Longrightarrow> rows n T ! r ! c = T r c"
  by (simp add: rows_def)

lemma rows_update:
  assumes "r < n" "i < n"
  shows "(rows n T)[r := (rows n T ! r)[i := v]] = rows n (T(r := (T r)(i := v)))"
proof -
  have row: "(map (T r) [0..<n])[i := v] = map ((T r)(i := v)) [0..<n]"
    using assms by (simp add: list_eq_iff_nth_eq nth_list_update)
  show ?thesis
    using assms by (simp add: rows_def list_eq_iff_nth_eq nth_list_update row)
qed

lemma spec_iteration_rows:
  assumes "i < n"
  shows "spec_iteration n (rows n W) j i (rows n T) = rows n (inner_step (j mod n) W i T)"
proof -
  have r: "j mod n < n" using assms by simp
  show ?thesis
    using assms r
    by (simp add: spec_iteration_def inner_step_def store_sum_def rows_nth rows_update)
qed

lemma spec_inner_fold:
  "m \<le> n \<Longrightarrow>
     fold (spec_iteration n (rows n W) j) [0..<m] (rows n T) =
       rows n (fold (inner_step (j mod n) W) [0..<m] T)"
proof (induction m)
  case 0
  show ?case by simp
next
  case (Suc m)
  then have "m < n" "m \<le> n" by simp_all
  with Suc show ?case by (simp add: spec_iteration_rows)
qed

lemma spec_outer_fold:
  "fold (\<lambda>j. fold (spec_iteration n (rows n W) j) [0..<n]) [0..<k] (rows n T) =
     rows n (accumulate_upto n W k T)"
proof (induction k)
  case 0
  show ?case by (simp add: accumulate_upto_0)
next
  case (Suc k)
  then show ?case
    by (simp add: accumulate_upto_Suc outer_step_def spec_inner_fold)
qed

lemma concat_rows_upto:
  "concat (map (\<lambda>r. map (T r) [0..<n]) [0..<m]) = map (\<lambda>i. T (i div n) (i mod n)) [0..<m * n]"
proof (induction m)
  case 0
  show ?case by simp
next
  case (Suc m)
  have a: "Suc m * n = m * n + n" by simp
  have b: "[0..<m * n + n] = [0..<m * n] @ [m * n..<m * n + n]"
    by (rule upt_add_eq_append) simp
  have c: "map (\<lambda>c. c + m * n) [0..<n] = [m * n..<n + m * n]"
    by (rule map_add_upt)
  have d: "n + m * n = m * n + n" by simp
  have split: "[0..<Suc m * n] = [0..<m * n] @ map (\<lambda>c. c + m * n) [0..<n]"
    by (simp only: a b c d)
  have last: "map (\<lambda>i. T (i div n) (i mod n)) (map (\<lambda>c. c + m * n) [0..<n]) = map (T m) [0..<n]"
    by (simp add: comp_def)
  show ?case
    unfolding split using Suc last by simp
qed

lemma concat_rows: "concat (rows n T) = map (\<lambda>i. T (i div n) (i mod n)) [0..<n * n]"
  by (simp add: rows_def concat_rows_upto)

lemma spec_kernel_core_eq:
  "spec_kernel_core n inp =
     map (\<lambda>i. ((\<lambda>x. x + inp ! (i mod n * n + i div n)) ^^ (n * n)) 0) [0..<n * n]"
proof -
  have "i div n < n \<and> i mod n < n" if "i < n * n" for i
    using that index_in_range by blast
  then show ?thesis
    by (simp add: spec_kernel_core_def spec_accumulate_def spec_working_rows spec_zeros_rows
        spec_outer_fold accumulate_def[symmetric] concat_rows accumulate_cell)
qed

section \<open>The worked example in single precision\<close>

lemmas float_eval = float_of_int_def encode_def rne_def round_half_even_def fadd_def fdiv_def
  is_nan_def is_inf_def is_zero_def mag_def sval_def plus_float32_def zero_float32_def
  one_float32_def quiet_def default_nan_def bitlen.simps Let_def

lemma small_floats:
  "float_of_int 1 = Float32 False 127 0"
  "float_of_int 2 = Float32 False 128 0"
  "float_of_int 3 = Float32 False 128 4194304"
  "float_of_int 4 = Float32 False 129 0"
  "float_of_int 6 = Float32 False 129 4194304"
  "float_of_int 8 = Float32 False 130 0"
  "float_of_int 12 = Float32 False 130 4194304"
  "float_of_int 16 = Float32 False 131 0"
  by (simp_all add: float_eval)

lemma four_times:
  "((\<lambda>x. x + float_of_int 1) ^^ 4) 0 = float_of_int 4"
  "((\<lambda>x. x + float_of_int 2) ^^ 4) 0 = float_of_int 8"
  "((\<lambda>x. x + float_of_int 3) ^^ 4) 0 = float_of_int 12"
  "((\<lambda>x. x + float_of_int 4) ^^ 4) 0 = float_of_int 16"
  unfolding small_floats by (simp_all add: eval_nat_numeral) (simp_all add: float_eval)

lemma upt4: "[0..<2 * 2] = [0, 1, 2, 3]"
  by (simp add: upt_rec)

lemma float_example:
  assumes "s \<le> 2"
  shows "KernelCompute 2 s l (map float_of_int [1, 2, 3, 4]) = map float_of_int [4, 12, 8, 16]"
proof -
  have "KernelCompute 2 s l (map float_of_int [1, 2, 3, 4]) =
      map (\<lambda>i. ((\<lambda>x. x + map float_of_int [1, 2, 3, 4] ! (i mod 2 * 2 + i div 2)) ^^ (2 * 2)) 0)
        [0..<2 * 2]"
    using assms by (rule KernelCompute_eq)
  also have "\<dots> = map float_of_int [4, 12, 8, 16]"
    unfolding upt4 by (simp add: four_times)
  finally show ?thesis .
qed

lemma spec_example:
  "spec_output 2 (map float_of_int [1, 2, 3, 4]) = map float_of_int [4, 4, 6, 6]"
  unfolding spec_output_def spec_column_sum_def upt4
  by (simp add: upt_rec small_floats) (simp add: float_eval)

lemma floats_differ: "float_of_int 12 \<noteq> float_of_int 4"
  by (simp add: small_floats)

section \<open>Auxiliary facts about the program\<close>

lemma transposed_index:
  fixes i n :: nat
  assumes "i < n * n"
  shows "i mod n * n + i div n < n * n"
proof -
  have a: "i div n < n" "i mod n < n" using index_in_range[OF assms] by simp_all
  from a(2) have "Suc (i mod n) \<le> n" by (rule Suc_leI)
  then have "Suc (i mod n) * n \<le> n * n" by (rule mult_le_mono1)
  with a show ?thesis by simp
qed

lemma KernelCompute_length: "length (KernelCompute n s l inp) = n * n"
  by (simp add: KernelCompute_def write_output_eq split: prod.splits)

lemma random_input_nth:
  "i < kMatrixSize \<Longrightarrow>
     random_input h ! i = fdiv (float_of_int (rand h i)) (float_of_int (RAND_MAX h))"
  by (simp add: random_input_def)

lemma kMatrixSize_pos: "0 < kMatrixSize"
  by (simp add: kMatrixSize_def kRowLength_def)

lemma verify_append:
  "verify B C (pre @ i # rest) =
     (if list_all (\<lambda>k. feq (B ! k) (C ! k)) pre
      then if fne (B ! i) (C ! i) then (1, [FAILED]) else verify B C rest
      else (1, [FAILED]))"
  by (induction pre) (simp_all add: fne_def)

section \<open>A single 1 in the input, at the size of the program\<close>

lemma fold_add_zeros:
  assumes "\<forall>p\<in>set ps. f p = (0::float32)" and "x + 0 = x"
  shows "fold (\<lambda>p acc. acc + f p) ps x = x"
  using assms by (induction ps) simp_all

lemma one_plus_zero: "(1::float32) + 0 = 1" "(0::float32) + 0 = 0" "(0::float32) + 1 = 1"
  by (simp_all add: float_eval)

lemma zero_not_one: "(0::float32) \<noteq> 1"
  by (simp add: zero_float32_def one_float32_def)

lemma single_one_nth:
  "i < kMatrixSize \<Longrightarrow>
     (replicate kMatrixSize (0::float32))[kRowLength := 1] ! i = (if i = kRowLength then 1 else 0)"
  by (simp add: nth_list_update)

lemma column_of_single_one:
  "spec_column_sum kRowLength ((replicate kMatrixSize (0::float32))[kRowLength := 1]) 0 = 1"
proof -
  let ?A = "(replicate kMatrixSize (0::float32))[kRowLength := 1]"
  let ?f = "\<lambda>p. ?A ! (p * kRowLength + 0)"
  have idx: "p * kRowLength + 0 < kMatrixSize" if "p < kRowLength" for p
    using that by (simp add: kMatrixSize_def)
  have f0: "?f 0 = 0" using idx[of 0] by (simp add: single_one_nth kRowLength_def)
  have f1: "?f 1 = 1" using idx[of 1] by (simp add: single_one_nth kRowLength_def)
  have rest: "\<forall>p\<in>set [2..<kRowLength]. ?f p = 0"
  proof
    fix p assume "p \<in> set [2..<kRowLength]"
    then have p: "2 \<le> p" "p < kRowLength" by simp_all
    then have "p * kRowLength + 0 \<noteq> kRowLength" by (simp add: kRowLength_def)
    with idx[OF p(2)] show "?f p = 0" by (simp only: single_one_nth if_False)
  qed
  have split: "[0..<kRowLength] = 0 # 1 # [2..<kRowLength]"
    by (simp add: kRowLength_def upt_rec)
  have "spec_column_sum kRowLength ?A 0 = fold (\<lambda>p acc. acc + ?f p) [2..<kRowLength] ((0 + ?f 0) + ?f 1)"
    by (simp only: spec_column_sum_def split fold_simps)
  also have "\<dots> = fold (\<lambda>p acc. acc + ?f p) [2..<kRowLength] 1"
    by (simp only: f0 f1 one_plus_zero)
  also have "\<dots> = 1" using rest one_plus_zero(1) by (rule fold_add_zeros)
  finally show ?thesis .
qed

lemma single_one_example:
  "KernelCompute kRowLength kMinSafelen in_order
      ((replicate kMatrixSize (0::float32))[kRowLength := 1]) ! 0 = 0
   \<and> spec_output kRowLength ((replicate kMatrixSize (0::float32))[kRowLength := 1]) ! 0 = 1"
proof -
  let ?A = "(replicate kMatrixSize (0::float32))[kRowLength := 1]"
  have "?A ! 0 = 0" using kMatrixSize_pos by (simp add: single_one_nth kRowLength_def)
  then have z: "is_zero (?A ! 0)" by (simp add: is_zero_def zero_float32_def)
  have "KernelCompute kRowLength kMinSafelen in_order ?A ! 0 =
      ((\<lambda>x. x + ?A ! 0) ^^ (kRowLength * kRowLength)) 0"
    using kMatrixSize_pos
    by (simp add: KernelCompute_eq kMinSafelen_def kRowLength_def kMatrixSize_def)
  also have "\<dots> = 0" using z by (rule funpow_zero)
  finally have k: "KernelCompute kRowLength kMinSafelen in_order ?A ! 0 = 0" .
  have "spec_output kRowLength ?A ! 0 = spec_column_sum kRowLength ?A 0"
    using kMatrixSize_pos by (simp add: spec_output_def kMatrixSize_def)
  with k column_of_single_one show ?thesis by simp
qed

section \<open>Schedules beyond the true distance\<close>

lemma ivdep_history_fresh:
  assumes "\<And>j i. j < k \<Longrightarrow> i < n \<Longrightarrow> stale_by s lg j i < n"
  shows "ivdep_history n s lg inb k T = map (\<lambda>m. accumulate_upto n inb m T) (rev [0..<Suc k])"
  using assms
proof (induction k)
  case 0
  show ?case by (simp add: ivdep_history_def accumulate_upto_0)
next
  case (Suc k)
  let ?V = "\<lambda>m. accumulate_upto n inb m T"
  define h where "h = map ?V (rev [0..<Suc k])"
  have IH: "ivdep_history n s lg inb k T = h"
    unfolding h_def using Suc.prems by (intro Suc.IH) simp
  have hist: "ivdep_history n s lg inb (Suc k) T = ivdep_outer_step n s lg inb k h"
    using IH by (simp add: ivdep_history_def)
  have nth: "h ! d = ?V (k - d)" if "d \<le> k" for d
    using that by (simp add: h_def rev_nth nth_map del: upt_Suc)
  have hd: "hd h = ?V k" by (simp add: h_def)
  have view: "(h ! stale_by s lg k i) (k mod n) i = ?V k (k mod n) i" if "i < n" for i
  proof -
    let ?d = "stale_by s lg k i"
    have dk: "?d \<le> k" by (simp add: stale_by_def)
    have dn: "?d < n" using that by (intro Suc.prems) simp_all
    show ?thesis using nth[OF dk] row_stable[OF dn dk, of inb T] by simp
  qed
  have "fold (ivdep_inner_step s lg (k mod n) inb h k) [0..<n] (hd h) = outer_step n inb k (?V k)"
    unfolding ivdep_inner_fold outer_step_eq hd
    by (intro ext) (simp add: view)
  then have "ivdep_outer_step n s lg inb k h = ?V (Suc k) # h"
    by (simp add: ivdep_outer_step_def accumulate_upto_Suc)
  with hist show ?case by (simp add: h_def)
qed

lemma accumulate_ivdep_zero_lag:
  "accumulate_ivdep n s (\<lambda>_ _. 0) inb T = accumulate n inb T"
proof -
  have "ivdep_history n s (\<lambda>_ _. 0) inb (n * n * n) T =
      map (\<lambda>m. accumulate_upto n inb m T) (rev [0..<Suc (n * n * n)])"
    by (rule ivdep_history_fresh) (simp add: stale_by_def)
  then show ?thesis by (simp add: accumulate_ivdep_def accumulate_def)
qed

lemma KernelCompute_cell_readout:
  assumes "r < n" "c < n"
  shows "KernelCompute n s l inp ! (r * n + c) =
     accumulate_ivdep n s (lag l)
       (\<lambda>r c. if r < n \<and> c < n then inp ! (r * n + c) else in_uninit l r c)
       (\<lambda>r c. if r < n \<and> c < n then 0 else temp_uninit l r c) r c"
proof -
  have "Suc r \<le> n" using assms by simp
  then have "Suc r * n \<le> n * n" by (rule mult_le_mono1)
  then have lt: "r * n + c < n * n" using assms by simp
  show ?thesis
    using assms lt by (simp add: KernelCompute_def init_buffers_eq write_output_eq)
qed

lemma count_hits_partial:
  assumes "r < n" "t \<le> r"
  shows "length (filter (\<lambda>j. j mod n = r) [0..<n * m + t]) = m"
proof -
  have b: "[0..<n * m + t] = [0..<n * m] @ [n * m..<n * m + t]"
    by (rule upt_add_eq_append) simp
  have c: "map (\<lambda>i. i + n * m) [0..<t] = [n * m..<t + n * m]"
    by (rule map_add_upt)
  have d: "t + n * m = n * m + t" by simp
  have split: "[0..<n * m + t] = [0..<n * m] @ map (\<lambda>i. i + n * m) [0..<t]"
    by (simp only: b c d)
  have "filter (\<lambda>i. (i + n * m) mod n = r) [0..<t] = []"
    using assms by (auto simp add: filter_empty_conv)
  then have "filter (\<lambda>j. j mod n = r) (map (\<lambda>i. i + n * m) [0..<t]) = []"
    by (simp add: filter_map comp_def)
  then show ?thesis
    using count_hits[OF assms(1), of m] by (simp only: split filter_append length_append list.size add_0_right)
qed

lemma last_load_late_cell:
  assumes n: "2 \<le> n" and i: "i < n"
  shows "accumulate_ivdep n (Suc n) (last_load_late n) inb T (n - 1) i =
           ((\<lambda>x. x + inb i (n - 1)) ^^ (n * n - 2)) (T (n - 1) i) + inb i (n - 1)"
proof -
  let ?lg = "last_load_late n"
  let ?V = "\<lambda>m. accumulate_upto n inb m T"
  have "2 * 2 \<le> n * n" using n n by (rule mult_le_mono)
  then have nn: "4 \<le> n * n" by simp
  define m where "m = n * n - 2"
  have nm: "n * n = m + 2" using nn by (simp add: m_def)
  have cube: "n * n * n = n * m + 2 * n" by (simp add: nm algebra_simps)
  define K where "K = n * n * n - 1"
  have K: "n * n * n = Suc K" using cube n by (simp add: K_def)
  have K1: "K = n * m + n + (n - 1)" using cube K n by arith
  have Kn: "K - n = n * m + (n - 1)" and nK: "n \<le> K" using K1 by arith+
  have "K = n * Suc m + (n - 1)" using K1 by simp
  then have "K mod n = (n - 1) mod n" by (simp only: mod_mult_self4)
  then have Kmod: "K mod n = n - 1" using n by simp
  have fresh: "stale_by (Suc n) ?lg j i' < n" if "j < K" "i' < n" for j i'
    using that K by (simp add: stale_by_def last_load_late_def)
  define h where "h = map ?V (rev [0..<Suc K])"
  have hK: "ivdep_history n (Suc n) ?lg inb K T = h"
    unfolding h_def using fresh by (rule ivdep_history_fresh)
  have "ivdep_history n (Suc n) ?lg inb (Suc K) T = ivdep_outer_step n (Suc n) ?lg inb K h"
    using hK by (simp add: ivdep_history_def)
  then have acc: "accumulate_ivdep n (Suc n) ?lg inb T =
      fold (ivdep_inner_step (Suc n) ?lg (K mod n) inb h K) [0..<n] (hd h)"
    by (simp add: accumulate_ivdep_def K ivdep_outer_step_def)
  have st: "stale_by (Suc n) ?lg K i = n"
    using nK K by (simp add: stale_by_def last_load_late_def)
  have "h ! n = ?V (K - n)"
    using nK by (simp add: h_def rev_nth nth_map del: upt_Suc)
  moreover have "?V (K - n) (n - 1) i = ((\<lambda>x. x + inb i (n - 1)) ^^ m) (T (n - 1) i)"
  proof -
    have "length (filter (\<lambda>j. j mod n = n - 1) [0..<n * m + (n - 1)]) = m"
      using n by (intro count_hits_partial) simp_all
    then show ?thesis using i by (simp add: accumulate_upto_cell Kn)
  qed
  ultimately have "(h ! n) (n - 1) i = ((\<lambda>x. x + inb i (n - 1)) ^^ m) (T (n - 1) i)"
    by simp
  then show ?thesis
    using i by (simp add: acc ivdep_inner_fold Kmod st m_def)
qed

lemma sval_float_of_nat:
  assumes "k \<le> 2 ^ 24"
  shows "sval (float_of_int (int k)) = int (k * 2 ^ 149)"
    and "\<not> is_nan (float_of_int (int k))" and "\<not> is_inf (float_of_int (int k))"
proof -
  have k31: "k \<le> 2 ^ 31" using assms by (rule order_trans) simp
  note f = float_of_nat[OF k31]
  have "representable (k * 2 ^ 149)" using assms by (rule representable_scaled)
  then have "rne (k * 2 ^ 149 * 1) 1 = k * 2 ^ 149" by (intro rne_exact) simp
  then have r: "rne (k * 2 ^ 149) 1 = k * 2 ^ 149" by simp
  show "sval (float_of_int (int k)) = int (k * 2 ^ 149)"
    using f(3) by (simp only: sval_def f(1) sign_encode r if_False)
  show "\<not> is_nan (float_of_int (int k))" by (simp only: f(1) not_nan_encode not_False_eq_True)
  have "rne (k * 2 ^ 149) 1 < 2 ^ 277" using f(2) by (rule le_less_trans) simp
  then show "\<not> is_inf (float_of_int (int k))" by (simp only: f(1) is_inf_encode not_le)
qed

lemma one_is_float_of_int: "(1::float32) = float_of_int 1"
  by (simp add: float_eval)

lemma zero_is_float_of_int: "(0::float32) = float_of_int 0"
  by (simp add: float_eval)

lemma count_up:
  assumes "k < 2 ^ 24"
  shows "float_of_int (int k) + 1 = float_of_int (int (Suc k))"
proof -
  have k: "k \<le> 2 ^ 24" using assms by simp
  note a = sval_float_of_nat[OF k]
  have "sval (1::float32) = int (1 * 2 ^ 149)" "\<not> is_nan (1::float32)" "\<not> is_inf (1::float32)"
    using sval_float_of_nat[of 1] by (simp_all add: one_is_float_of_int)
  then have b: "sval (1::float32) = 2 ^ 149" "\<not> is_nan (1::float32)" "\<not> is_inf (1::float32)"
    by simp_all
  have s: "sval (float_of_int (int k)) + sval (1::float32) = int (Suc k * 2 ^ 149)"
    by (simp add: a(1) b(1))
  have pos: "0 < int (Suc k * 2 ^ 149)" by simp
  have "float_of_int (int k) + 1 = encode False (rne (Suc k * 2 ^ 149) 1)"
    unfolding plus_float32_def fadd_def s using a(2,3) b(2,3) pos
    by (simp del: of_nat_mult of_nat_Suc of_nat_power mult_Suc add: nat_int)
  also have "\<dots> = float_of_int (int (Suc k))"
    by (simp add: float_of_int_def del: mult_Suc of_nat_Suc)
  finally show ?thesis .
qed

lemma funpow_ones:
  "k \<le> 2 ^ 24 \<Longrightarrow> ((\<lambda>x. x + 1) ^^ k) (0::float32) = float_of_int (int k)"
proof (induction k)
  case 0
  show ?case by (simp add: zero_is_float_of_int)
next
  case (Suc k)
  then have "k < 2 ^ 24" by simp
  with Suc show ?case by (simp add: count_up del: of_nat_Suc)
qed

lemma program_order_last_cell:
  "KernelCompute kRowLength s (l\<lparr>lag := \<lambda>_ _. 0\<rparr>) (replicate kMatrixSize 1) ! (kMatrixSize - 1)
     = float_of_int 16384"
proof -
  have idx: "kMatrixSize - 1 = (kRowLength - 1) * kRowLength + (kRowLength - 1)"
    by (simp add: kMatrixSize_def kRowLength_def)
  have r: "kRowLength - 1 < kRowLength" by (simp add: kRowLength_def)
  have "(kRowLength - 1) * kRowLength + (kRowLength - 1) < kMatrixSize"
    by (simp add: kMatrixSize_def kRowLength_def)
  then have one: "replicate kMatrixSize (1::float32) ! ((kRowLength - 1) * kRowLength + (kRowLength - 1)) = 1"
    by (rule nth_replicate)
  have "KernelCompute kRowLength s (l\<lparr>lag := \<lambda>_ _. 0\<rparr>) (replicate kMatrixSize 1) ! (kMatrixSize - 1)
      = ((\<lambda>x. x + 1) ^^ (kRowLength * kRowLength)) (0::float32)"
    unfolding idx KernelCompute_cell_readout[OF r r]
    using r one by (simp add: accumulate_ivdep_zero_lag accumulate_cell)
  also have "\<dots> = float_of_int (int (kRowLength * kRowLength))"
    by (rule funpow_ones) (simp add: kRowLength_def)
  finally show ?thesis by (simp add: kRowLength_def)
qed

lemma late_last_cell:
  "KernelCompute kRowLength (Suc kRowLength) (l\<lparr>lag := last_load_late kRowLength\<rparr>)
      (replicate kMatrixSize 1) ! (kMatrixSize - 1)
     = float_of_int 16383"
proof -
  let ?l = "l\<lparr>lag := last_load_late kRowLength\<rparr>"
  let ?inb = "\<lambda>r c. if r < kRowLength \<and> c < kRowLength
      then replicate kMatrixSize (1::float32) ! (r * kRowLength + c) else in_uninit ?l r c"
  let ?T = "\<lambda>r c. if r < kRowLength \<and> c < kRowLength then (0::float32) else temp_uninit ?l r c"
  have idx: "kMatrixSize - 1 = (kRowLength - 1) * kRowLength + (kRowLength - 1)"
    by (simp add: kMatrixSize_def kRowLength_def)
  have r: "kRowLength - 1 < kRowLength" and n: "2 \<le> kRowLength" by (simp_all add: kRowLength_def)
  have "(kRowLength - 1) * kRowLength + (kRowLength - 1) < kMatrixSize"
    by (simp add: kMatrixSize_def kRowLength_def)
  then have one: "replicate kMatrixSize (1::float32) ! ((kRowLength - 1) * kRowLength + (kRowLength - 1)) = 1"
    by (rule nth_replicate)
  have lagl: "lag ?l = last_load_late kRowLength" by simp
  have c: "?inb (kRowLength - 1) (kRowLength - 1) = 1" by (simp only: r one if_True simp_thms)
  have d: "?T (kRowLength - 1) (kRowLength - 1) = 0" by (simp only: r if_True simp_thms)
  have "KernelCompute kRowLength (Suc kRowLength) ?l (replicate kMatrixSize 1) ! (kMatrixSize - 1)
      = accumulate_ivdep kRowLength (Suc kRowLength) (lag ?l) ?inb ?T (kRowLength - 1) (kRowLength - 1)"
    unfolding idx by (rule KernelCompute_cell_readout[OF r r])
  also have "\<dots> = ((\<lambda>x. x + ?inb (kRowLength - 1) (kRowLength - 1)) ^^ (kRowLength * kRowLength - 2))
        (?T (kRowLength - 1) (kRowLength - 1)) + ?inb (kRowLength - 1) (kRowLength - 1)"
    unfolding lagl by (rule last_load_late_cell[OF n r])
  also have "\<dots> = ((\<lambda>x. x + 1) ^^ (kRowLength * kRowLength - 2)) (0::float32) + 1"
    by (simp only: c d)
  also have "\<dots> = float_of_int (int (kRowLength * kRowLength - 2)) + 1"
    by (subst funpow_ones) (simp_all add: kRowLength_def)
  also have "\<dots> = float_of_int (int (Suc (kRowLength * kRowLength - 2)))"
    by (rule count_up) (simp add: kRowLength_def)
  finally show ?thesis by (simp add: kRowLength_def)
qed

lemma counts_differ: "float_of_int 16383 \<noteq> float_of_int 16384"
  by (simp add: float_eval)

lemma KernelCompute_fills:
  "KernelCompute n s l inp =
     map (\<lambda>i. accumulate_ivdep n s (lag l)
                (fst (init_buffers n inp (in_uninit l, temp_uninit l)))
                (snd (init_buffers n inp (in_uninit l, temp_uninit l)))
                (i div n) (i mod n)) [0..<n * n]"
  by (simp add: KernelCompute_def write_output_eq split: prod.splits)

lemma schedule_only_example:
  "KernelCompute 2 3 (in_order\<lparr>lag := \<lambda>j _. j\<rparr>) [1, 2, 3, 4 :: int] = [2, 6, 4, 8]
   \<and> KernelCompute 2 3 in_order [1, 2, 3, 4 :: int] = [4, 12, 8, 16]"
  by code_simp

section \<open>The claims\<close>

text \<open>
  Claim C1. For every input matrix and every \<open>safe_len\<close> in \<open>[1, N]\<close> (\<open>N = 128\<close>) the
  output matrix of \<^verbatim>\<open>TransposeAndFold\<close> is the same, element for element and bit for
  bit, as with any other \<open>safe_len\<close> in \<open>[1, N]\<close>, whatever schedule the pipeline takes
  within what the attribute allows and whatever the uninitialised buffers held; it is
  the matrix that the loop writes in program order, and only the \<open>safe_len\<close> printed in
  the two report lines differs. In particular the outputs for \<open>safe_len = 1\<close> and
  \<open>safe_len = N\<close> are equal.
\<close>

theorem safe_len_does_not_change_output:
  assumes "1 \<le> s1" "s1 \<le> kRowLength" "1 \<le> s2" "s2 \<le> kRowLength"
    and "thrown l1 = None" "thrown l2 = None"
  shows "\<exists>m_output.
           TransposeAndFold s1 l1 A = Inr (m_output, [KernelTime s1, Throughput s1]) \<and>
           TransposeAndFold s2 l2 A = Inr (m_output, [KernelTime s2, Throughput s2]) \<and>
           m_output = KernelCompute_seq kRowLength l1 A \<and>
           length m_output = kMatrixSize"
  using assms by (simp add: TransposeAndFold_eq KernelCompute_seq_eq kMatrixSize_def)

theorem safe_len_does_not_change_output_witness:
  "1 \<le> kMinSafelen \<and> kMinSafelen \<le> kRowLength \<and> 1 \<le> kMaxSafelen \<and> kMaxSafelen \<le> kRowLength \<and>
   thrown (in_order :: float32 launch) = None \<and> thrown (late_loads :: float32 launch) = None \<and>
   (\<exists>m_output.
      TransposeAndFold kMinSafelen in_order (replicate kMatrixSize (1::float32))
        = Inr (m_output, [KernelTime kMinSafelen, Throughput kMinSafelen]) \<and>
      TransposeAndFold kMaxSafelen late_loads (replicate kMatrixSize (1::float32))
        = Inr (m_output, [KernelTime kMaxSafelen, Throughput kMaxSafelen]) \<and>
      m_output = KernelCompute_seq kRowLength in_order (replicate kMatrixSize (1::float32)) \<and>
      length m_output = kMatrixSize)"
  using safe_len_does_not_change_output [of kMinSafelen kMaxSafelen
      "in_order :: float32 launch" "late_loads :: float32 launch"
      "replicate kMatrixSize (1::float32)"]
  by (simp add: kMinSafelen_def kMaxSafelen_def kRowLength_def in_order_def late_loads_def)

text \<open>
  Claim C2 says that output cell \<open>(r, c)\<close> is the sum over \<open>p\<close> of \<open>Input[p][r]\<close>, so that
  for \<open>N = 2\<close> and \<open>Input = [[1, 2], [3, 4]]\<close> the output is \<open>[[4, 4], [6, 6]]\<close>. The kernel
  run on that input, in single precision, writes \<open>[[4, 12], [8, 16]]\<close>. At the size of
  the program, \<open>N = 128\<close>, take the input that is \<open>0.0\<close> everywhere but for
  \<open>Input[1][0] = 1.0\<close>: the sum of column 0 is \<open>1.0\<close>, and the kernel writes \<open>0.0\<close> into
  output cell \<open>(0, 0)\<close>.
\<close>

theorem column_sum_contract_fails:
  "KernelCompute 2 1 in_order (map float_of_int [1, 2, 3, 4]) = map float_of_int [4, 12, 8, 16]
   \<and> spec_output 2 (map float_of_int [1, 2, 3, 4]) = map float_of_int [4, 4, 6, 6]
   \<and> KernelCompute 2 1 in_order (map float_of_int [1, 2, 3, 4])
       \<noteq> spec_output 2 (map float_of_int [1, 2, 3, 4])
   \<and> KernelCompute kRowLength kMinSafelen in_order
         ((replicate kMatrixSize (0::float32))[kRowLength := 1]) ! 0 = 0
   \<and> spec_output kRowLength ((replicate kMatrixSize (0::float32))[kRowLength := 1]) ! 0 = 1
   \<and> (0::float32) \<noteq> 1"
  using float_example [of 1 in_order] spec_example floats_differ single_one_example zero_not_one
  by simp

text \<open>
  Claim C2, as the code has it. For every input matrix the output matrix holds, in cell
  \<open>i = r * N + c\<close>, the value \<open>0\<close> with \<open>Input[c * N + r]\<close> added to it \<open>N\<^sup>2\<close> times in single
  precision: the transposed input scaled by \<open>N\<^sup>2\<close>, not a column sum, and the rows are not
  constant. For \<open>N = 2\<close> and \<open>Input = [[1, 2], [3, 4]]\<close> the output is
  \<open>[[4, 12], [8, 16]]\<close>.
\<close>

theorem output_is_scaled_transpose:
  assumes "1 \<le> safe_len" "safe_len \<le> kRowLength" "thrown l = None"
  shows "TransposeAndFold safe_len l A =
           Inr (map (\<lambda>i. ((\<lambda>acc. acc + A ! (i mod kRowLength * kRowLength + i div kRowLength))
                            ^^ kMatrixSize) (0::float32)) [0..<kMatrixSize],
                [KernelTime safe_len, Throughput safe_len])
       \<and> KernelCompute 2 1 l (map float_of_int [1, 2, 3, 4]) = map float_of_int [4, 12, 8, 16]"
  using assms float_example [of 1 l] by (simp add: TransposeAndFold_eq)

theorem output_is_scaled_transpose_witness:
  "TransposeAndFold kMaxSafelen late_loads (replicate kMatrixSize 1) =
           Inr (map (\<lambda>i. ((\<lambda>acc. acc + replicate kMatrixSize 1 !
                              (i mod kRowLength * kRowLength + i div kRowLength))
                            ^^ kMatrixSize) (0::float32)) [0..<kMatrixSize],
                [KernelTime kMaxSafelen, Throughput kMaxSafelen])
       \<and> KernelCompute 2 1 late_loads (map float_of_int [1, 2, 3, 4]) = map float_of_int [4, 12, 8, 16]"
  using output_is_scaled_transpose [of kMaxSafelen "late_loads :: float32 launch"
      "replicate kMatrixSize 1"]
  by (simp add: kMaxSafelen_def kRowLength_def late_loads_def)

text \<open>
  Claim C3. For every input matrix and every output cell \<open>(r, c)\<close> the value the kernel
  writes is \<open>0\<close> with \<open>Input[c * N + r]\<close> added to it \<open>N * N\<close> times from the left, one
  addition for each outer iteration \<open>j\<close> with \<open>j mod N = r\<close>, of which there are \<open>N * N\<close>
  (16384 for \<open>N = 128\<close>); in exact arithmetic this is \<open>N\<^sup>2 * Input[c][r]\<close>; and the value
  depends on the column \<open>c\<close>: for \<open>N = 2\<close> and input \<open>[[1, 2], [3, 4]]\<close> the output is
  \<open>[[4, 12], [8, 16]]\<close>.
\<close>

theorem cell_is_repeated_addition:
  assumes "s \<le> n" "r < n" "c < n"
  shows "KernelCompute n s l inp ! (r * n + c) = ((\<lambda>x. x + inp ! (c * n + r)) ^^ (n * n)) 0
       \<and> accumulate_upto n inb k T r c =
           ((\<lambda>x. x + inb c r) ^^ length (filter (\<lambda>j. j mod n = r) [0..<k])) (T r c)
       \<and> length (filter (\<lambda>j. j mod n = r) [0..<n * n * n]) = n * n
       \<and> KernelCompute n s l' exact ! (r * n + c) = of_nat (n * n) * (exact ! (c * n + r) :: 'b::semiring_1)
       \<and> kRowLength * kRowLength = 16384
       \<and> KernelCompute 2 1 l'' [1, 2, 3, 4 :: int] = [4, 12, 8, 16]"
proof -
  have "KernelCompute 2 1 l'' [1, 2, 3, 4 :: int] =
      map (\<lambda>i. ((\<lambda>x. x + [1, 2, 3, 4] ! (i mod 2 * 2 + i div 2)) ^^ (2 * 2)) 0) [0..<2 * 2]"
    by (rule KernelCompute_eq) simp
  also have "\<dots> = [4, 12, 8, 16]"
    by code_simp
  finally have "KernelCompute 2 1 l'' [1, 2, 3, 4 :: int] = [4, 12, 8, 16]" .
  then show ?thesis
    using assms
    by (simp add: KernelCompute_nth accumulate_upto_cell count_hits mult.assoc funpow_add_exact
        kRowLength_def)
qed

theorem cell_is_repeated_addition_witness:
  "(2::nat) \<le> 2 \<and> (1::nat) < 2 \<and> (0::nat) < 2 \<and>
   KernelCompute 2 2 late_loads [1, 2, 3, 4 :: int] ! (1 * 2 + 0)
     = ((\<lambda>x. x + [1, 2, 3, 4] ! (0 * 2 + 1)) ^^ (2 * 2)) 0
   \<and> accumulate_upto 2 (\<lambda>i r. int i + 10 * int r) 5 (\<lambda>_ _. 0) 1 0 =
       ((\<lambda>x. x + (int 0 + 10 * int 1)) ^^ length (filter (\<lambda>j. j mod 2 = 1) [0..<5])) 0
   \<and> length (filter (\<lambda>j. j mod 2 = 1) [0..<2 * 2 * 2]) = 2 * 2
   \<and> KernelCompute 2 2 late_loads [1, 2, 3, 4 :: int] ! (1 * 2 + 0)
       = of_nat (2 * 2) * ([1, 2, 3, 4] ! (0 * 2 + 1))
   \<and> kRowLength * kRowLength = 16384
   \<and> KernelCompute 2 1 in_order [1, 2, 3, 4 :: int] = [4, 12, 8, 16]"
  using cell_is_repeated_addition [where s = 2 and n = 2 and r = 1 and c = 0
      and l = "late_loads :: int launch" and inp = "[1, 2, 3, 4 :: int]"
      and inb = "\<lambda>i r. int i + 10 * int r" and k = 5 and T = "\<lambda>_ _. 0 :: int"
      and l' = "late_loads :: int launch" and exact = "[1, 2, 3, 4 :: int]"
      and l'' = "in_order :: int launch"]
  by simp

text \<open>
  Claim C4. The kernel performs the steps the specification lists: the accumulator
  starts all zero, \<open>j\<close> runs from 0 to \<open>N\<^sup>2 * N\<close> and \<open>i\<close> from 0 to \<open>N\<close>, iteration
  \<open>(j, i)\<close> does \<open>accumulator[j mod N][i] += working[i][j mod N]\<close> on the row-major input,
  and the accumulator is copied into the output matrix. This holds for the loop in
  program order and for every schedule that a \<open>safe_len\<close> in \<open>[1, N]\<close> admits.
\<close>

theorem kernel_follows_specified_steps:
  assumes "1 \<le> safe_len" "safe_len \<le> n"
  shows "KernelCompute n safe_len l input = spec_kernel_core n input
       \<and> KernelCompute_seq n l input = spec_kernel_core n input"
  using assms by (simp add: KernelCompute_eq KernelCompute_seq_eq spec_kernel_core_eq)

theorem kernel_follows_specified_steps_witness:
  "(1::nat) \<le> 2 \<and> (2::nat) \<le> 2 \<and>
   KernelCompute 2 2 late_loads [1, 2, 3, 4 :: int] = spec_kernel_core 2 [1, 2, 3, 4]
   \<and> KernelCompute_seq 2 late_loads [1, 2, 3, 4 :: int] = spec_kernel_core 2 [1, 2, 3, 4]
   \<and> spec_kernel_core 2 [1, 2, 3, 4 :: int] = [4, 12, 8, 16]"
proof -
  have "spec_kernel_core 2 [1, 2, 3, 4 :: int] = [4, 12, 8, 16]"
    by code_simp
  then show ?thesis
    using kernel_follows_specified_steps [of 2 2 "late_loads :: int launch" "[1, 2, 3, 4 :: int]"]
    by simp
qed

text \<open>
  Claim C5. The comparison loop returns status 0 exactly when all \<open>N\<^sup>2\<close> pairs of elements
  compare equal (by the \<^verbatim>\<open>!=\<close> of C++ on floats) and status 1, printing FAILED, at
  the first pair that does not, without looking at the pairs after it; \<^verbatim>\<open>main\<close> exits
  with the status of that loop on the outputs of the two launches, and a SYCL exception
  in either launch ends the process in \<^verbatim>\<open>std::terminate()\<close> instead.
\<close>

theorem exit_status_contract:
  "verify B C [0..<kMatrixSize] =
     (if (\<forall>i<kMatrixSize. feq (B ! i) (C ! i)) then (0, [PASSED]) else (1, [FAILED]))
   \<and> verify B C (pre @ i # rest) =
     (if list_all (\<lambda>k. feq (B ! k) (C ! k)) pre
      then if fne (B ! i) (C ! i) then (1, [FAILED]) else verify B C rest
      else (1, [FAILED]))
   \<and> main h =
     (case thrown (first_launch h) of
        Some e \<Rightarrow> (Terminated, catch_handler e)
      | None \<Rightarrow>
          (case thrown (second_launch h) of
             Some e \<Rightarrow>
               (Terminated, [KernelTime kMinSafelen, Throughput kMinSafelen] @ catch_handler e)
           | None \<Rightarrow>
               (Exit (fst (verify
                  (KernelCompute kRowLength kMinSafelen (first_launch h) (random_input h))
                  (KernelCompute kRowLength kMaxSafelen (second_launch h) (random_input h))
                  [0..<kMatrixSize])),
                [KernelTime kMinSafelen, Throughput kMinSafelen,
                 KernelTime kMaxSafelen, Throughput kMaxSafelen] @
                snd (verify
                  (KernelCompute kRowLength kMinSafelen (first_launch h) (random_input h))
                  (KernelCompute kRowLength kMaxSafelen (second_launch h) (random_input h))
                  [0..<kMatrixSize]))))"
proof -
  have c1: "verify B C [0..<kMatrixSize] =
     (if (\<forall>i<kMatrixSize. feq (B ! i) (C ! i)) then (0, [PASSED]) else (1, [FAILED]))"
    by (auto simp add: verify_eq list_all_iff)
  have c3: "main h =
     (case thrown (first_launch h) of
        Some e \<Rightarrow> (Terminated, catch_handler e)
      | None \<Rightarrow>
          (case thrown (second_launch h) of
             Some e \<Rightarrow>
               (Terminated, [KernelTime kMinSafelen, Throughput kMinSafelen] @ catch_handler e)
           | None \<Rightarrow>
               (Exit (fst (verify
                  (KernelCompute kRowLength kMinSafelen (first_launch h) (random_input h))
                  (KernelCompute kRowLength kMaxSafelen (second_launch h) (random_input h))
                  [0..<kMatrixSize])),
                [KernelTime kMinSafelen, Throughput kMinSafelen,
                 KernelTime kMaxSafelen, Throughput kMaxSafelen] @
                snd (verify
                  (KernelCompute kRowLength kMinSafelen (first_launch h) (random_input h))
                  (KernelCompute kRowLength kMaxSafelen (second_launch h) (random_input h))
                  [0..<kMatrixSize]))))"
    by (simp add: main_def Let_def TransposeAndFold_def split: option.splits prod.splits)
  show ?thesis
    by (intro conjI) (rule c1, rule verify_append, rule c3)
qed

theorem exit_status_contract_witness:
  "verify [0, 1, 1] [0, 1, 0] ([0, 1] @ 2 # [0]) = (1, [FAILED])
   \<and> main \<lparr>RAND_MAX = 32767, rand = \<lambda>_. 1,
          first_launch = in_order\<lparr>thrown := Some (SyclException ''no device'' CL_DEVICE_NOT_FOUND)\<rparr>,
          second_launch = late_loads\<rparr> =
       (Terminated, [HostException ''no device'', BoardHint])
   \<and> main \<lparr>RAND_MAX = 32767, rand = \<lambda>_. 1,
          first_launch = in_order,
          second_launch = late_loads\<lparr>thrown := Some (SyclException ''lost'' 0)\<rparr>\<rparr> =
       (Terminated, [KernelTime kMinSafelen, Throughput kMinSafelen, HostException ''lost''])"
proof -
  have ne: "fne (1::float32) 0" "feq (0::float32) 0" "feq (1::float32) 1"
    by (simp_all add: fne_def feq_def is_nan_def sval_def mag_def zero_float32_def one_float32_def)
  show ?thesis
    using exit_status_contract [of "[0, 1, 1]" "[0, 1, 0]" "[0, 1]" 2 "[0]"
      "\<lparr>RAND_MAX = 32767, rand = \<lambda>_. 1,
          first_launch = in_order\<lparr>thrown := Some (SyclException ''no device'' CL_DEVICE_NOT_FOUND)\<rparr>,
          second_launch = late_loads\<rparr>"]
      exit_status_contract [of "[0, 1, 1]" "[0, 1, 0]" "[0, 1]" 2 "[0]"
      "\<lparr>RAND_MAX = 32767, rand = \<lambda>_. 1,
          first_launch = in_order,
          second_launch = late_loads\<lparr>thrown := Some (SyclException ''lost'' 0)\<rparr>\<rparr>"]
    by (simp add: ne catch_handler_def CL_DEVICE_NOT_FOUND_def in_order_def late_loads_def)
qed

text \<open>
  Claim C6 says that a \<open>safe_len\<close> above \<open>N\<close> is rejected before the kernel runs. The
  template has no such check: instantiated with \<open>safe_len = N + 1\<close> the function runs the
  kernel and returns a full output matrix.
\<close>

theorem safe_len_above_row_length_runs:
  "kRowLength < kMaxSafelen + 1
   \<and> TransposeAndFold (kMaxSafelen + 1) in_order (replicate kMatrixSize (0::float32)) =
       Inr (KernelCompute kRowLength (kMaxSafelen + 1) in_order (replicate kMatrixSize 0),
            [KernelTime (kMaxSafelen + 1), Throughput (kMaxSafelen + 1)])
   \<and> length (KernelCompute kRowLength (kMaxSafelen + 1) in_order (replicate kMatrixSize (0::float32)))
       = kMatrixSize"
  by (simp add: TransposeAndFold_def in_order_def KernelCompute_length kMaxSafelen_def kMatrixSize_def)

text \<open>
  Claim C6, as the code has it. \<^verbatim>\<open>TransposeAndFold\<close> does not check \<open>safe_len\<close>: for
  every \<open>safe_len\<close> from 1 upwards, also above \<open>N\<close>, a launch that does not throw runs the
  kernel, and every one of the \<open>N\<^sup>2\<close> output elements is the element of
  \<^verbatim>\<open>temp_buffer\<close> that the accumulation loop left, whatever the output buffer held
  before. Above \<open>N\<close> the result depends on the schedule: for \<open>N = 128\<close>,
  \<open>safe_len = N + 1\<close> and an input of ones, the same launch writes \<open>16384.0\<close> into the
  last cell in program order and \<open>16383.0\<close> when only the loads of the last iteration
  are late; for \<open>N = 2\<close> and \<open>safe_len = 3\<close>, changing the schedule alone turns
  \<open>[[4, 12], [8, 16]]\<close> into \<open>[[2, 6], [4, 8]]\<close>.
\<close>

theorem safe_len_is_not_checked:
  assumes "1 \<le> safe_len" "thrown l = None"
  shows "TransposeAndFold safe_len l A =
           Inr (KernelCompute kRowLength safe_len l A, [KernelTime safe_len, Throughput safe_len])
       \<and> KernelCompute kRowLength safe_len l A =
           map (\<lambda>i. accumulate_ivdep kRowLength safe_len (lag l)
                      (fst (init_buffers kRowLength A (in_uninit l, temp_uninit l)))
                      (snd (init_buffers kRowLength A (in_uninit l, temp_uninit l)))
                      (i div kRowLength) (i mod kRowLength)) [0..<kMatrixSize]
       \<and> TransposeAndFold safe_len (l\<lparr>out_uninit := g\<rparr>) A = TransposeAndFold safe_len l A
       \<and> KernelCompute kRowLength (kRowLength + 1) (l\<lparr>lag := \<lambda>_ _. 0\<rparr>)
             (replicate kMatrixSize 1) ! (kMatrixSize - 1) = float_of_int 16384
       \<and> KernelCompute kRowLength (kRowLength + 1) (l\<lparr>lag := last_load_late kRowLength\<rparr>)
             (replicate kMatrixSize 1) ! (kMatrixSize - 1) = float_of_int 16383
       \<and> TransposeAndFold (kRowLength + 1) (l\<lparr>lag := last_load_late kRowLength\<rparr>)
             (replicate kMatrixSize 1)
           \<noteq> TransposeAndFold (kRowLength + 1) (l\<lparr>lag := \<lambda>_ _. 0\<rparr>) (replicate kMatrixSize 1)
       \<and> KernelCompute 2 3 (in_order\<lparr>lag := \<lambda>j _. j\<rparr>) [1, 2, 3, 4 :: int] = [2, 6, 4, 8]
       \<and> KernelCompute 2 3 in_order [1, 2, 3, 4 :: int] = [4, 12, 8, 16]"
proof -
  let ?late = "l\<lparr>lag := last_load_late kRowLength\<rparr>"
  let ?order = "l\<lparr>lag := \<lambda>_ _. 0\<rparr>"
  let ?ones = "replicate kMatrixSize (1::float32)"
  have c1: "TransposeAndFold safe_len l A =
      Inr (KernelCompute kRowLength safe_len l A, [KernelTime safe_len, Throughput safe_len])"
    using assms by (simp add: TransposeAndFold_def)
  have c2: "KernelCompute kRowLength safe_len l A =
      map (\<lambda>i. accumulate_ivdep kRowLength safe_len (lag l)
                 (fst (init_buffers kRowLength A (in_uninit l, temp_uninit l)))
                 (snd (init_buffers kRowLength A (in_uninit l, temp_uninit l)))
                 (i div kRowLength) (i mod kRowLength)) [0..<kMatrixSize]"
    unfolding kMatrixSize_def by (rule KernelCompute_fills)
  have "KernelCompute kRowLength safe_len (l\<lparr>out_uninit := g\<rparr>) A =
      KernelCompute kRowLength safe_len l A"
    by (simp add: KernelCompute_fills)
  then have c3: "TransposeAndFold safe_len (l\<lparr>out_uninit := g\<rparr>) A = TransposeAndFold safe_len l A"
    by (simp add: TransposeAndFold_def split: option.splits)
  have c4: "KernelCompute kRowLength (kRowLength + 1) ?order ?ones ! (kMatrixSize - 1)
      = float_of_int 16384"
    by (rule program_order_last_cell)
  have c5: "KernelCompute kRowLength (kRowLength + 1) ?late ?ones ! (kMatrixSize - 1)
      = float_of_int 16383"
    using late_last_cell[of l] by simp
  have "KernelCompute kRowLength (kRowLength + 1) ?late ?ones
      \<noteq> KernelCompute kRowLength (kRowLength + 1) ?order ?ones"
    using c4 c5 counts_differ by auto
  then have c6: "TransposeAndFold (kRowLength + 1) ?late ?ones
      \<noteq> TransposeAndFold (kRowLength + 1) ?order ?ones"
    using assms(2) by (simp add: TransposeAndFold_def)
  show ?thesis
    using c1 c2 c3 c4 c5 c6 schedule_only_example by blast
qed

theorem safe_len_is_not_checked_witness:
  "1 \<le> kRowLength + 1 \<and> kRowLength < kRowLength + 1
   \<and> thrown (late_loads :: float32 launch) = None
   \<and> TransposeAndFold (kRowLength + 1) late_loads (replicate kMatrixSize (1::float32)) =
       Inr (KernelCompute kRowLength (kRowLength + 1) late_loads (replicate kMatrixSize 1),
            [KernelTime (kRowLength + 1), Throughput (kRowLength + 1)])
   \<and> TransposeAndFold (kRowLength + 1) (late_loads\<lparr>out_uninit := \<lambda>_. 0\<rparr>)
         (replicate kMatrixSize (1::float32))
       = TransposeAndFold (kRowLength + 1) late_loads (replicate kMatrixSize 1)
   \<and> TransposeAndFold (kRowLength + 1) (late_loads\<lparr>lag := last_load_late kRowLength\<rparr>)
         (replicate kMatrixSize (1::float32))
       \<noteq> TransposeAndFold (kRowLength + 1) (late_loads\<lparr>lag := \<lambda>_ _. 0\<rparr>)
           (replicate kMatrixSize 1)"
proof -
  have h1: "1 \<le> kRowLength + 1" by simp
  have h2: "thrown (late_loads :: float32 launch) = None" by (simp add: late_loads_def)
  from safe_len_is_not_checked [OF h1 h2, of "replicate kMatrixSize 1" "\<lambda>_. 0"] h1 h2
  show ?thesis by simp
qed

text \<open>
  Claim C7. For every \<open>safe_len\<close> in \<open>[1, N]\<close>, if every element of the input matrix is a
  zero (\<open>+0.0\<close> or \<open>-0.0\<close>), every element of the output matrix is \<open>+0.0\<close>.
\<close>

theorem zero_input_gives_zero_output:
  assumes "1 \<le> safe_len" "safe_len \<le> kRowLength" "thrown l = None"
    and zero: "\<forall>i<kMatrixSize. is_zero (A ! i)"
  shows "TransposeAndFold safe_len l A =
           Inr (replicate kMatrixSize 0, [KernelTime safe_len, Throughput safe_len])"
proof -
  have cell: "((\<lambda>x. x + A ! (i mod kRowLength * kRowLength + i div kRowLength)) ^^ kMatrixSize) 0 = 0"
    if "i < kMatrixSize" for i
  proof -
    have "i mod kRowLength * kRowLength + i div kRowLength < kMatrixSize"
      using that unfolding kMatrixSize_def by (rule transposed_index)
    with zero have "is_zero (A ! (i mod kRowLength * kRowLength + i div kRowLength))" by simp
    then show ?thesis by (rule funpow_zero)
  qed
  have "map (\<lambda>i. ((\<lambda>x. x + A ! (i mod kRowLength * kRowLength + i div kRowLength)) ^^ kMatrixSize) 0)
          [0..<kMatrixSize] = replicate kMatrixSize 0"
    by (simp add: list_eq_iff_nth_eq cell)
  then show ?thesis using assms by (simp add: TransposeAndFold_eq)
qed

theorem zero_input_gives_zero_output_witness:
  "1 \<le> kMaxSafelen \<and> kMaxSafelen \<le> kRowLength \<and> thrown (late_loads :: float32 launch) = None \<and>
   list_all is_zero (replicate kMatrixSize (Float32 True 0 0)) \<and>
   TransposeAndFold kMaxSafelen late_loads (replicate kMatrixSize (Float32 True 0 0)) =
     Inr (replicate kMatrixSize 0, [KernelTime kMaxSafelen, Throughput kMaxSafelen])"
  using zero_input_gives_zero_output [of kMaxSafelen "late_loads :: float32 launch"
      "replicate kMatrixSize (Float32 True 0 0)"]
  by (simp add: kMaxSafelen_def kRowLength_def late_loads_def is_zero_def list_all_iff)

text \<open>
  Claim C8. Two runs of \<^verbatim>\<open>TransposeAndFold\<close> with the same input matrix and the same
  \<open>safe_len\<close> in \<open>[1, N]\<close> give the same result: nothing that a launch finds in memory,
  and no schedule of the pipeline, reaches the output.
\<close>

theorem rerun_is_deterministic:
  assumes "1 \<le> safe_len" "safe_len \<le> kRowLength"
    and "thrown l1 = None" "thrown l2 = None"
  shows "TransposeAndFold safe_len l1 A = TransposeAndFold safe_len l2 A"
  using assms by (simp add: TransposeAndFold_eq)

theorem rerun_is_deterministic_witness:
  "1 \<le> (64::nat) \<and> 64 \<le> kRowLength \<and>
   thrown (in_order :: int launch) = None \<and> thrown (late_loads :: int launch) = None \<and>
   TransposeAndFold 64 in_order (replicate kMatrixSize (1::int))
     = TransposeAndFold 64 late_loads (replicate kMatrixSize (1::int))"
  using rerun_is_deterministic [of 64 "in_order :: int launch" "late_loads :: int launch"
      "replicate kMatrixSize (1::int)"]
  by (simp add: kRowLength_def in_order_def late_loads_def)

text \<open>
  Claim C9 says that every element of the random input is strictly below 1. When
  \<^verbatim>\<open>rand()\<close> returns \<^verbatim>\<open>RAND_MAX\<close> the quotient is exactly \<open>1.0\<close>.
\<close>

theorem rand_max_gives_one:
  "\<not> flt (random_input \<lparr>RAND_MAX = 2147483647, rand = \<lambda>_. 2147483647,
              first_launch = in_order, second_launch = late_loads\<rparr> ! 0) 1"
proof -
  have "random_input \<lparr>RAND_MAX = 2147483647, rand = \<lambda>_. 2147483647,
          first_launch = in_order, second_launch = late_loads\<rparr> ! 0 = 1"
    by (simp add: random_input_nth kMatrixSize_pos rand_max_over_rand_max)
  then show ?thesis by (simp add: flt_def)
qed

text \<open>
  Claim C9, as the code has it. With \<^verbatim>\<open>RAND_MAX\<close> a positive \<^verbatim>\<open>int\<close> and every
  \<^verbatim>\<open>rand()\<close> between 0 and \<^verbatim>\<open>RAND_MAX\<close>, every element of the input matrix lies in
  the closed interval \<open>[0, 1]\<close>, and it is \<open>1.0\<close> where \<^verbatim>\<open>rand()\<close> returned
  \<^verbatim>\<open>RAND_MAX\<close>.
\<close>

theorem input_in_closed_unit_interval:
  assumes M: "0 < RAND_MAX h" "RAND_MAX h < 2 ^ 31"
    and r: "\<forall>k<kMatrixSize. 0 \<le> rand h k \<and> rand h k \<le> RAND_MAX h"
    and i: "i < kMatrixSize"
  shows "fle 0 (random_input h ! i) \<and> fle (random_input h ! i) 1 \<and>
         (rand h i = RAND_MAX h \<longrightarrow> random_input h ! i = 1)"
proof -
  let ?x = "fdiv (float_of_int (rand h i)) (float_of_int (RAND_MAX h))"
  have ri: "0 \<le> rand h i" "rand h i \<le> RAND_MAX h" using r i by simp_all
  note el = input_element[OF ri M]
  have "sval ?x = int (mag ?x)" using el(2) by (simp add: sval_def)
  moreover have "int (mag ?x) \<le> 2 ^ 149" using el(3) by (metis of_nat_le_iff of_nat_numeral of_nat_power)
  moreover have "\<not> is_nan (0::float32)" "\<not> is_nan (1::float32)"
    by (simp_all add: is_nan_def zero_float32_def one_float32_def)
  ultimately have "fle 0 ?x \<and> fle ?x 1"
    using el(1) by (simp add: fle_def sval_zero sval_one)
  moreover have "rand h i = RAND_MAX h \<longrightarrow> ?x = 1"
    using M by (simp add: rand_max_over_rand_max)
  ultimately show ?thesis using i by (simp add: random_input_nth)
qed

theorem input_in_closed_unit_interval_witness:
  "fle 0 (random_input \<lparr>RAND_MAX = 32767, rand = \<lambda>k. if even k then 0 else 32767,
              first_launch = in_order, second_launch = late_loads\<rparr> ! 1) \<and>
   fle (random_input \<lparr>RAND_MAX = 32767, rand = \<lambda>k. if even k then 0 else 32767,
              first_launch = in_order, second_launch = late_loads\<rparr> ! 1) 1 \<and>
   random_input \<lparr>RAND_MAX = 32767, rand = \<lambda>k. if even k then 0 else 32767,
              first_launch = in_order, second_launch = late_loads\<rparr> ! 1 = 1"
proof -
  let ?h = "\<lparr>RAND_MAX = 32767, rand = \<lambda>k. if even k then 0 else 32767,
              first_launch = in_order, second_launch = late_loads\<rparr>"
  have M: "0 < RAND_MAX ?h" "RAND_MAX ?h < 2 ^ 31" by simp_all
  have r: "\<forall>k<kMatrixSize. 0 \<le> rand ?h k \<and> rand ?h k \<le> RAND_MAX ?h" by simp
  have i: "1 < kMatrixSize" by (simp add: kMatrixSize_def kRowLength_def)
  have "rand ?h 1 = RAND_MAX ?h" by simp
  with input_in_closed_unit_interval [OF M r i] show ?thesis by blast
qed

text \<open>
  Claim C10. When neither launch throws, \<^verbatim>\<open>main\<close> prints the four report lines and
  PASSED, never FAILED, and returns 0: both launches write the same matrix, and no
  element of it is a NaN, so no pair compares unequal. (\<^verbatim>\<open>RAND_MAX\<close> is a positive
  \<^verbatim>\<open>int\<close> and \<^verbatim>\<open>rand()\<close> returns values between 0 and \<^verbatim>\<open>RAND_MAX\<close>.)
\<close>

theorem mismatch_branch_unreachable:
  assumes t: "thrown (first_launch h) = None" "thrown (second_launch h) = None"
    and M: "0 < RAND_MAX h" "RAND_MAX h < 2 ^ 31"
    and r: "\<forall>k<kMatrixSize. 0 \<le> rand h k \<and> rand h k \<le> RAND_MAX h"
  shows "main h = (Exit 0, [KernelTime kMinSafelen, Throughput kMinSafelen,
                            KernelTime kMaxSafelen, Throughput kMaxSafelen, PASSED])"
proof -
  define A where "A = random_input h"
  define out where "out =
    map (\<lambda>i. ((\<lambda>x. x + A ! (i mod kRowLength * kRowLength + i div kRowLength)) ^^ kMatrixSize) 0)
      [0..<kMatrixSize]"
  have B: "TransposeAndFold kMinSafelen (first_launch h) A =
      Inr (out, [KernelTime kMinSafelen, Throughput kMinSafelen])"
    unfolding out_def using t(1) by (intro TransposeAndFold_eq) (simp_all add: kMinSafelen_def kRowLength_def)
  have C: "TransposeAndFold kMaxSafelen (second_launch h) A =
      Inr (out, [KernelTime kMaxSafelen, Throughput kMaxSafelen])"
    unfolding out_def using t(2) by (intro TransposeAndFold_eq) (simp_all add: kMaxSafelen_def)
  have nn: "\<not> is_nan (out ! i)" if "i < kMatrixSize" for i
  proof -
    let ?k = "i mod kRowLength * kRowLength + i div kRowLength"
    have k: "?k < kMatrixSize"
      using that unfolding kMatrixSize_def by (rule transposed_index)
    then have rk: "0 \<le> rand h ?k" "rand h ?k \<le> RAND_MAX h" using r by simp_all
    have "A ! ?k = fdiv (float_of_int (rand h ?k)) (float_of_int (RAND_MAX h))"
      unfolding A_def using k by (rule random_input_nth)
    then have "\<not> is_nan (A ! ?k)" "\<not> sign (A ! ?k)"
      using input_element[OF rk M] by simp_all
    then have "\<not> is_nan (((\<lambda>x. x + A ! ?k) ^^ kMatrixSize) 0)"
      using funpow_nonneg by blast
    then show ?thesis using that by (simp add: out_def)
  qed
  have "list_all (\<lambda>i. feq (out ! i) (out ! i)) [0..<kMatrixSize]"
    by (simp add: list_all_iff feq_def nn)
  then have "verify out out [0..<kMatrixSize] = (0, [PASSED])"
    by (simp add: verify_eq)
  then show ?thesis
    by (simp add: main_def Let_def A_def[symmetric] B C)
qed

theorem mismatch_branch_unreachable_witness:
  "main \<lparr>RAND_MAX = 2147483647, rand = \<lambda>k. (int k * 1103515245 + 12345) mod 2147483648,
          first_launch = in_order, second_launch = late_loads\<rparr> =
     (Exit 0, [KernelTime kMinSafelen, Throughput kMinSafelen,
               KernelTime kMaxSafelen, Throughput kMaxSafelen, PASSED])"
proof -
  have "(int k * 1103515245 + 12345) mod 2147483648 < 2147483648" for k
    by (rule pos_mod_bound) simp
  then have "(int k * 1103515245 + 12345) mod 2147483648 \<le> 2147483647" for k
    by (simp add: zle_diff1_eq[symmetric] del: zle_diff1_eq)
  then show ?thesis
    using mismatch_branch_unreachable [of "\<lparr>RAND_MAX = 2147483647,
          rand = \<lambda>k. (int k * 1103515245 + 12345) mod 2147483648,
          first_launch = in_order, second_launch = late_loads\<rparr>"]
    by (simp add: in_order_def late_loads_def)
qed

end
